theory Spec2Isabelle
  imports Main "HOL-Library.AList"
begin

section \<open>Data model of the builder page\<close>

text \<open>
  The page \<^verbatim>\<open>src/frontend/src/pages/Builder.tsx\<close> keeps two pieces of state: the file
  tree (\<^verbatim>\<open>files : FileItem[]\<close>) and the list of build steps (\<^verbatim>\<open>steps : Step[]\<close>).
  Their declarations live in \<^verbatim>\<open>hooks/types\<close>, which is not part of the sources at hand;
  the fields below are the ones the page reads and writes. An optional field
  (\<^verbatim>\<open>content\<close>, \<^verbatim>\<open>children\<close>, \<^verbatim>\<open>path\<close>, \<^verbatim>\<open>code\<close>) is an \<open>option\<close>: \<open>None\<close> is
  JavaScript's \<^verbatim>\<open>undefined\<close>.
\<close>

datatype ItemType = File | Folder

datatype FileItem =
  FileItem (name: string) (type: ItemType) (path: string)
           (content: "string option") (children: "FileItem list option")

text \<open>
  Modelled from the spec: the enumeration \<^verbatim>\<open>StepType\<close> of \<^verbatim>\<open>hooks/types\<close>. The page only
  compares a step's type with \<^verbatim>\<open>StepType.CreateFile\<close>; the spec names the kinds
  "CreateFile, RunCommand, ..." and leaves the rest open.
\<close>

datatype StepType = CreateFile | RunCommand | OtherStep nat

text \<open>
  A step. The status is the JavaScript string the page compares with \<^verbatim>\<open>"pending"\<close> and
  overwrites with \<^verbatim>\<open>"completed"\<close>. The record is extensible: whatever further fields a
  step carries (the object spread \<^verbatim>\<open>...s\<close> keeps them) sit in the extension.
\<close>

record Step =
  step_type :: StepType
  step_path :: "string option"
  code :: "string option"
  status :: string

datatype error = TypeError

section \<open>The reconciler (the effect on \<^verbatim>\<open>steps\<close> and \<^verbatim>\<open>files\<close>)\<close>

text \<open>\<^verbatim>\<open>String.prototype.split("/")\<close>: the pieces between the slashes, at least one piece.\<close>

fun split_slash :: "string \<Rightarrow> string list" where
  "split_slash [] = [[]]"
| "split_slash (c # cs) =
     (if c = CHR ''/'' then [] # split_slash cs
      else (case split_slash cs of
              [] \<Rightarrow> [[c]]
            | w # ws \<Rightarrow> (c # w) # ws))"

text \<open>
  \<^verbatim>\<open>find(x => x.path === p)\<close> is \<open>find\<close> of the list library: the first match or
  \<open>None\<close>. The node found is mutated in place by the source; on a tree value that is the
  replacement of the first node with that path.
\<close>

fun update_first :: "string \<Rightarrow> (FileItem \<Rightarrow> FileItem) \<Rightarrow> FileItem list \<Rightarrow> FileItem list" where
  "update_first p f [] = []"
| "update_first p f (x # xs) =
     (if path x = p then f x # xs else x # update_first p f xs)"

definition set_content :: "string option \<Rightarrow> FileItem \<Rightarrow> FileItem" where
  "set_content c x = FileItem (name x) (type x) (path x) c (children x)"

definition set_children :: "FileItem list option \<Rightarrow> FileItem \<Rightarrow> FileItem" where
  "set_children ch x = FileItem (name x) (type x) (path x) (content x) ch"

text \<open>
  The \<^verbatim>\<open>while (parsedPath.length)\<close> loop of lines 69-99, as a recursion on the segments
  still to walk. \<open>currentFolder\<close> is the prefix accumulated so far and \<open>cfs\<close> is
  \<^verbatim>\<open>currentFileStructure\<close>, the children sequence the loop stands in. The source descends
  by aliasing the \<^verbatim>\<open>children\<close> array of the node found and mutating it; here the walk
  of the rest returns the new children and the node is rebuilt around them.

  Where the node found at a non-final segment has no \<^verbatim>\<open>children\<close> field,
  \<^verbatim>\<open>currentFileStructure\<close> becomes \<^verbatim>\<open>undefined\<close>; a further segment is left, so the next
  round calls \<^verbatim>\<open>.find\<close> on \<^verbatim>\<open>undefined\<close> and raises a TypeError.
\<close>

fun walk :: "string list \<Rightarrow> string \<Rightarrow> string option \<Rightarrow> FileItem list \<Rightarrow> error + FileItem list" where
  "walk [] currentFolder0 c cfs = Inr cfs"
| "walk (currentFolderName # parsedPath) currentFolder0 c cfs =
     (let currentFolder = currentFolder0 @ ''/'' @ currentFolderName in
      if parsedPath = [] then
        (case find (\<lambda>x. path x = currentFolder) cfs of
           None \<Rightarrow> Inr (cfs @ [FileItem currentFolderName File currentFolder c None])
         | Some file \<Rightarrow> Inr (update_first currentFolder (set_content c) cfs))
      else
        (let cfs1 = (case find (\<lambda>x. path x = currentFolder) cfs of
                       None \<Rightarrow> cfs @ [FileItem currentFolderName Folder currentFolder None (Some [])]
                     | Some folder \<Rightarrow> cfs)
         in case find (\<lambda>x. path x = currentFolder) cfs1 of
              None \<Rightarrow> Inl TypeError
            | Some folder \<Rightarrow>
                (case children folder of
                   None \<Rightarrow> Inl TypeError
                 | Some ch \<Rightarrow>
                     (case walk parsedPath currentFolder c ch of
                        Inl e \<Rightarrow> Inl e
                      | Inr ch' \<Rightarrow> Inr (update_first currentFolder (set_children (Some ch')) cfs1)))))"

text \<open>
  The body of the \<^verbatim>\<open>map\<close> callback for one pending step: only a CreateFile step walks
  its path; \<^verbatim>\<open>step.path?.split("/") ?? []\<close> is the empty segment list when the path is
  absent.
\<close>

definition processStep :: "'a Step_scheme \<Rightarrow> FileItem list \<Rightarrow> error + FileItem list" where
  "processStep step originalFiles =
     (if step_type step = CreateFile then
        walk (case step_path step of None \<Rightarrow> [] | Some p \<Rightarrow> split_slash p) [] (code step) originalFiles
      else Inr originalFiles)"

fun processSteps :: "'a Step_scheme list \<Rightarrow> FileItem list \<Rightarrow> error + FileItem list" where
  "processSteps [] originalFiles = Inr originalFiles"
| "processSteps (step # rest) originalFiles =
     (case processStep step originalFiles of
        Inl e \<Rightarrow> Inl e
      | Inr originalFiles' \<Rightarrow> processSteps rest originalFiles')"

text \<open>
  One run of the effect on the state \<open>(files, steps)\<close>. \<^verbatim>\<open>updateHappened\<close> is set by the
  first pending step, so it holds exactly when the filtered list is not empty. A raise
  leaves the effect before any setter is called.
\<close>

definition reconcile :: "FileItem list \<times> 'a Step_scheme list \<Rightarrow> error + (FileItem list \<times> 'a Step_scheme list)" where
  "reconcile st =
     (let files = fst st; steps = snd st;
          pending = filter (\<lambda>s. status s = ''pending'') steps
      in case processSteps pending files of
           Inl e \<Rightarrow> Inl e
         | Inr originalFiles \<Rightarrow>
             (if pending \<noteq> [] then Inr (originalFiles, map (\<lambda>s. s\<lparr>status := ''completed''\<rparr>) steps)
              else Inr (files, steps)))"

section \<open>The edit operation (\<^verbatim>\<open>handleCodeChange\<close>)\<close>

fun updateFileContent :: "string \<Rightarrow> string \<Rightarrow> FileItem list \<Rightarrow> FileItem list"
  and updateItem :: "string \<Rightarrow> string \<Rightarrow> FileItem \<Rightarrow> FileItem" where
  "updateFileContent p newContent [] = []"
| "updateFileContent p newContent (item # items) =
     updateItem p newContent item # updateFileContent p newContent items"
| "updateItem p newContent (FileItem n t q c ch) =
     (if q = p then FileItem n t q (Some newContent) ch
      else (case ch of
              Some cs \<Rightarrow> (if t = Folder then FileItem n t q c (Some (updateFileContent p newContent cs))
                         else FileItem n t q c ch)
            | None \<Rightarrow> FileItem n t q c ch))"

definition handleCodeChange :: "FileItem option \<Rightarrow> string \<Rightarrow> FileItem list \<Rightarrow> FileItem list" where
  "handleCodeChange selectedFile newContent prevFiles =
     (case selectedFile of
        None \<Rightarrow> prevFiles
      | Some sel \<Rightarrow> updateFileContent (path sel) newContent prevFiles)"

section \<open>The mount projector (\<^verbatim>\<open>createMountStructure\<close>)\<close>

text \<open>
  A mount descriptor is a plain JavaScript object: \<^verbatim>\<open>{ file: { contents } }\<close> or
  \<^verbatim>\<open>{ directory: { name: descriptor, ... } }\<close>. An object's own properties are kept as an
  association list in creation order; storing under a key that exists replaces the value
  where it stands, storing under a new key appends (\<open>AList.update\<close>).
\<close>

datatype Descriptor = FileD string | DirectoryD "(string \<times> Descriptor) list"

text \<open>\<^verbatim>\<open>Object.fromEntries\<close>: the entries are defined as own properties one after the other.\<close>

definition fromEntries :: "(string \<times> 'v) list \<Rightarrow> (string \<times> 'v) list" where
  "fromEntries es = foldl (\<lambda>obj e. AList.update (fst e) (snd e) obj) [] es"

text \<open>
  The order in which JavaScript enumerates the own keys of an object: the keys that are
  array indices (canonical decimal numerals below \<open>2^32 - 1\<close>) first, in ascending numeric
  order, then the other string keys in creation order.
\<close>

definition is_digit :: "char \<Rightarrow> bool" where
  "is_digit c = (48 \<le> (of_char c :: nat) \<and> (of_char c :: nat) \<le> 57)"

definition numeric_value :: "string \<Rightarrow> int" where
  "numeric_value s = foldl (\<lambda>n c. 10 * n + (of_char c - 48)) 0 s"

definition is_array_index :: "string \<Rightarrow> bool" where
  "is_array_index s =
     (s \<noteq> [] \<and> list_all is_digit s \<and> (s = ''0'' \<or> hd s \<noteq> CHR ''0'') \<and>
      numeric_value s < 2 ^ 32 - 1)"

definition own_keys :: "(string \<times> 'v) list \<Rightarrow> string list" where
  "own_keys obj =
     sort_key numeric_value (filter is_array_index (map fst obj)) @
     filter (\<lambda>k. \<not> is_array_index k) (map fst obj)"

text \<open>
  The root object \<^verbatim>\<open>mountStructure\<close> is written by assignment,
  \<^verbatim>\<open>mountStructure[file.name] = ...\<close>. Assignment to the key \<^verbatim>\<open>__proto__\<close> of an object
  literal runs the setter inherited from \<^verbatim>\<open>Object.prototype\<close>: it replaces the prototype
  and creates no own property. (\<^verbatim>\<open>Object.fromEntries\<close> defines properties and has no such
  exception.)
\<close>

record MountStructure =
  props :: "(string \<times> Descriptor) list"
  proto :: "Descriptor option"

definition assign :: "string \<Rightarrow> Descriptor \<Rightarrow> MountStructure \<Rightarrow> MountStructure" where
  "assign k v m =
     (if k = ''__proto__'' then m\<lparr>proto := Some v\<rparr>
      else m\<lparr>props := AList.update k v (props m)\<rparr>)"

text \<open>
  \<^verbatim>\<open>processFile\<close> writes into the \<^verbatim>\<open>mountStructure\<close> of the enclosing call, so the object
  is passed in and returned. The right-hand side of the folder branch (the projection of
  the children) is evaluated before the assignment stores the result. The value returned
  at the end, \<^verbatim>\<open>mountStructure[file.name]\<close>, reads back the descriptor just assigned.
\<close>

fun processFile :: "FileItem \<Rightarrow> bool \<Rightarrow> MountStructure \<Rightarrow> Descriptor \<times> MountStructure"
  and processChildren :: "FileItem list \<Rightarrow> MountStructure \<Rightarrow> (string \<times> Descriptor) list \<times> MountStructure" where
  "processFile (FileItem n Folder p c None) isRootFolder m =
     (let d = DirectoryD [] in (d, assign n d m))"
| "processFile (FileItem n Folder p c (Some cs)) isRootFolder m =
     (let (es, m1) = processChildren cs m;
          d = DirectoryD (fromEntries es)
      in (d, assign n d m1))"
| "processFile (FileItem n File p c ch) isRootFolder m =
     (let d = FileD (case c of None \<Rightarrow> [] | Some s \<Rightarrow> s) in
      if isRootFolder then (d, assign n d m) else (d, m))"
| "processChildren [] m = ([], m)"
| "processChildren (child # cs) m =
     (let (d, m1) = processFile child False m;
          (es, m2) = processChildren cs m1
      in ((name child, d) # es, m2))"

definition createMountStructure :: "FileItem list \<Rightarrow> MountStructure" where
  "createMountStructure files =
     foldl (\<lambda>m file. snd (processFile file True m)) \<lparr>props = [], proto = None\<rparr> files"

section \<open>Observations on trees, steps and descriptors\<close>

text \<open>
  All the nodes of a tree, at every depth, in preorder: a node, then the nodes below its
  first child, and so on. With the number of children of each node, the sequence fixes
  the shape of the tree.
\<close>

fun nodes :: "FileItem list \<Rightarrow> FileItem list"
  and nodes_of :: "FileItem \<Rightarrow> FileItem list" where
  "nodes [] = []"
| "nodes (x # xs) = nodes_of x @ nodes xs"
| "nodes_of (FileItem n t p c ch) =
     FileItem n t p c ch # (case ch of None \<Rightarrow> [] | Some cs \<Rightarrow> nodes cs)"

definition nodes_at :: "string \<Rightarrow> FileItem list \<Rightarrow> FileItem list" where
  "nodes_at q items = filter (\<lambda>x. path x = q) (nodes items)"

text \<open>
  What an overwrite at the path \<open>p\<close> may change between a node and the node at the same
  place afterwards: the content, and only of a node whose path is \<open>p\<close>.
\<close>

definition only_content_edited :: "string \<Rightarrow> string option \<Rightarrow> FileItem \<Rightarrow> FileItem \<Rightarrow> bool" where
  "only_content_edited p newContent old new =
     (name new = name old \<and> type new = type old \<and> path new = path old \<and>
      map_option length (children new) = map_option length (children old) \<and>
      (content new = content old \<or> (path old = p \<and> content new = newContent)))"

text \<open>
  The values \<^verbatim>\<open>currentFolder\<close> takes while the loop walks the segments, and the paths a
  step addresses: those of its prefixes and of its file.
\<close>

fun prefix_paths :: "string \<Rightarrow> string list \<Rightarrow> string list" where
  "prefix_paths currentFolder [] = []"
| "prefix_paths currentFolder (s # ss) =
     (currentFolder @ ''/'' @ s) # prefix_paths (currentFolder @ ''/'' @ s) ss"

definition touched :: "'a Step_scheme \<Rightarrow> string list" where
  "touched step =
     (if step_type step = CreateFile then
        prefix_paths [] (case step_path step of None \<Rightarrow> [] | Some p \<Rightarrow> split_slash p)
      else [])"


text \<open>
  \<open>grows old new\<close>: at every level of the tree, the nodes of \<open>old\<close> are still there in
  \<open>new\<close>, at the same positions and with the same name, kind and path, and whatever is new
  comes after them.
\<close>

fun grows :: "FileItem list \<Rightarrow> FileItem list \<Rightarrow> bool"
  and grows_item :: "FileItem \<Rightarrow> FileItem \<Rightarrow> bool" where
  "grows [] new = True"
| "grows (x # xs) [] = False"
| "grows (x # xs) (y # ys) = (grows_item x y \<and> grows xs ys)"
| "grows_item (FileItem n t p c ch) y =
     (name y = n \<and> type y = t \<and> path y = p \<and>
      (case ch of
         None \<Rightarrow> children y = None
       | Some cs \<Rightarrow> (case children y of None \<Rightarrow> False | Some ds \<Rightarrow> grows cs ds)))"

text \<open>
  The shape of a tree the page builds: under the prefix \<open>pre\<close>, the path of a node is
  \<open>pre\<close>, a slash and the node's name, the name holds no slash, no two siblings have the
  same path, and the children of a node are of that shape under the node's path.
\<close>

fun wf_items :: "string \<Rightarrow> FileItem list \<Rightarrow> bool"
  and wf_item :: "string \<Rightarrow> FileItem \<Rightarrow> bool" where
  "wf_items pre [] = True"
| "wf_items pre (x # xs) = (wf_item pre x \<and> path x \<notin> path ` set xs \<and> wf_items pre xs)"
| "wf_item pre (FileItem n t p c ch) =
     (p = pre @ ''/'' @ n \<and> CHR ''/'' \<notin> set n \<and>
      (case ch of None \<Rightarrow> True | Some cs \<Rightarrow> wf_items p cs))"

text \<open>The path the loop has accumulated after the segments \<open>segs\<close>, from the empty prefix.\<close>

definition join :: "string list \<Rightarrow> string" where
  "join segs = concat (map (\<lambda>s. ''/'' @ s) segs)"

text \<open>
  The kinds of a tree the page builds: a node that has a \<^verbatim>\<open>children\<close> field is a folder.
\<close>

fun kinds_items :: "FileItem list \<Rightarrow> bool"
  and kinds_item :: "FileItem \<Rightarrow> bool" where
  "kinds_items [] = True"
| "kinds_items (x # xs) = (kinds_item x \<and> kinds_items xs)"
| "kinds_item (FileItem n t p c ch) =
     (case ch of None \<Rightarrow> True | Some cs \<Rightarrow> t = Folder \<and> kinds_items cs)"

text \<open>
  The keys of \<^verbatim>\<open>mountStructure\<close> that \<^verbatim>\<open>processFile\<close> assigns while it projects a node,
  in the order of the assignments: the name of every folder at any depth, and the name of
  a file when it is projected as a root.
\<close>

fun assigned :: "FileItem \<Rightarrow> bool \<Rightarrow> string list"
  and assigned_children :: "FileItem list \<Rightarrow> string list" where
  "assigned (FileItem n Folder p c None) isRootFolder = [n]"
| "assigned (FileItem n Folder p c (Some cs)) isRootFolder = assigned_children cs @ [n]"
| "assigned (FileItem n File p c ch) isRootFolder = (if isRootFolder then [n] else [])"
| "assigned_children [] = []"
| "assigned_children (child # cs) = assigned child False @ assigned_children cs"

definition assigned_roots :: "FileItem list \<Rightarrow> string list" where
  "assigned_roots files = concat (map (\<lambda>file. assigned file True) files)"

text \<open>
  What a node projects to, in the spec's words: a file to its contents (the empty string
  when absent), a folder to the directory of its children by name (empty without a
  \<^verbatim>\<open>children\<close> field).
\<close>

fun descriptor :: "FileItem \<Rightarrow> Descriptor" where
  "descriptor (FileItem n File p c ch) = FileD (case c of None \<Rightarrow> [] | Some s \<Rightarrow> s)"
| "descriptor (FileItem n Folder p c None) = DirectoryD []"
| "descriptor (FileItem n Folder p c (Some cs)) =
     DirectoryD (fromEntries (map (\<lambda>child. (name child, descriptor child)) cs))"

text \<open>The keys of a directory descriptor, in the order JavaScript enumerates them.\<close>

definition directory_keys :: "Descriptor \<Rightarrow> string list" where
  "directory_keys d = (case d of DirectoryD es \<Rightarrow> own_keys es | FileD s \<Rightarrow> [])"

section \<open>The walk, case by case\<close>

text \<open>
  The four ways one round of the loop can go: the final segment names a path that is
  absent or present, a non-final segment names a folder that is absent or present.
\<close>

declare walk.simps(2) [simp del]

lemma walk_final_absent:
  "find (\<lambda>x. path x = cur @ ''/'' @ seg) items = None \<Longrightarrow>
   walk [seg] cur c items = Inr (items @ [FileItem seg File (cur @ ''/'' @ seg) c None])"
  by (simp add: walk.simps(2))

lemma walk_final_present:
  "find (\<lambda>x. path x = cur @ ''/'' @ seg) items = Some x \<Longrightarrow>
   walk [seg] cur c items = Inr (update_first (cur @ ''/'' @ seg) (set_content c) items)"
  by (simp add: walk.simps(2))

lemma find_append_new:
  "find P items = None \<Longrightarrow> P y \<Longrightarrow> find P (items @ [y]) = Some y"
  by (induction items) (auto split: if_splits)

lemma update_first_append_new:
  "find (\<lambda>x. path x = p) items = None \<Longrightarrow> path y = p \<Longrightarrow>
   update_first p f (items @ [y]) = items @ [f y]"
  by (induction items) (auto split: if_splits)

lemma walk_descend_absent:
  assumes "rest \<noteq> []" and "find (\<lambda>x. path x = cur @ ''/'' @ seg) items = None"
  shows "walk (seg # rest) cur c items =
     (case walk rest (cur @ ''/'' @ seg) c [] of
        Inl e \<Rightarrow> Inl e
      | Inr ch' \<Rightarrow> Inr (items @ [FileItem seg Folder (cur @ ''/'' @ seg) None (Some ch')]))"
  using assms
  by (simp add: walk.simps(2) find_append_new update_first_append_new set_children_def
           split: sum.splits)

lemma walk_descend_present:
  assumes "rest \<noteq> []" and "find (\<lambda>x. path x = cur @ ''/'' @ seg) items = Some x"
  shows "walk (seg # rest) cur c items =
     (case children x of
        None \<Rightarrow> Inl TypeError
      | Some ch \<Rightarrow>
          (case walk rest (cur @ ''/'' @ seg) c ch of
             Inl e \<Rightarrow> Inl e
           | Inr ch' \<Rightarrow> Inr (update_first (cur @ ''/'' @ seg) (set_children (Some ch')) items)))"
  using assms
  by (simp add: walk.simps(2) Let_def split: option.splits sum.splits)

lemma find_split:
  "find P items = Some x \<Longrightarrow> \<exists>pre post. items = pre @ x # post \<and> (\<forall>y \<in> set pre. \<not> P y) \<and> P x"
proof (induction items)
  case Nil
  then show ?case by simp
next
  case (Cons a items)
  show ?case
  proof (cases "P a")
    case True
    with Cons.prems have "a = x" by simp
    with True show ?thesis by (intro exI[of _ "[]"] exI[of _ items]) simp
  next
    case False
    with Cons obtain pre post where "items = pre @ x # post" "\<forall>y \<in> set pre. \<not> P y" "P x"
      by auto
    with False show ?thesis by (intro exI[of _ "a # pre"] exI[of _ post]) simp
  qed
qed

lemma update_first_split:
  "\<forall>y \<in> set pre. path y \<noteq> p \<Longrightarrow> path x = p \<Longrightarrow>
   update_first p f (pre @ x # post) = pre @ f x # post"
  by (induction pre) simp_all

lemma nodes_append: "nodes (xs @ ys) = nodes xs @ nodes ys"
  by (induction xs) simp_all

lemma nodes_of_eq: "nodes_of x = x # (case children x of None \<Rightarrow> [] | Some cs \<Rightarrow> nodes cs)"
  by (cases x) simp

lemma same_nodes_edited: "list_all2 (only_content_edited p c) xs xs"
  by (simp add: list_all2_same only_content_edited_def)



section \<open>Facts about the reconciler\<close>

text \<open>
  C3. Idempotence guard: when no step of the list is pending (in particular when all are
  completed), one run of the reconciler changes neither the tree nor any status.
\<close>

theorem reconcile_no_pending:
  assumes "\<forall>s \<in> set steps. status s \<noteq> ''pending''"
  shows "reconcile (files, steps) = Inr (files, steps)"
proof -
  from assms have "filter (\<lambda>s. status s = ''pending'') steps = []"
    by (simp add: filter_empty_conv)
  then show ?thesis
    by (simp add: reconcile_def)
qed

theorem reconcile_no_pending_witness:
  "reconcile ([FileItem ''a'' File ''/a'' (Some ''x'') None],
              [\<lparr>step_type = CreateFile, step_path = Some ''a'', code = Some ''y'', status = ''completed''\<rparr>])
   = Inr ([FileItem ''a'' File ''/a'' (Some ''x'') None],
          [\<lparr>step_type = CreateFile, step_path = Some ''a'', code = Some ''y'', status = ''completed''\<rparr>])"
  using reconcile_no_pending
    [of "[\<lparr>step_type = CreateFile, step_path = Some ''a'', code = Some ''y'', status = ''completed''\<rparr>]"
        "[FileItem ''a'' File ''/a'' (Some ''x'') None]"]
  by simp

text \<open>
  C2. The claim is that the reconciler never raises. It does: the first step below
  creates the file \<^verbatim>\<open>/a\<close>, the second one finds that file where it looks for the folder
  \<^verbatim>\<open>/a\<close>, takes its missing \<^verbatim>\<open>children\<close> and calls \<^verbatim>\<open>find\<close> on \<^verbatim>\<open>undefined\<close>.
\<close>

theorem reconcile_file_as_prefix_raises:
  "reconcile ([], [\<lparr>step_type = CreateFile, step_path = Some ''a'', code = Some ''x'', status = ''pending''\<rparr>,
                   \<lparr>step_type = CreateFile, step_path = Some ''a/b'', code = Some ''y'', status = ''pending''\<rparr>])
   = Inl TypeError"
  by (simp add: reconcile_def processStep_def walk.simps(2))

subsection \<open>What a pass leaves alone\<close>

lemma walk_frame:
  "walk segs cur c items = Inr items' \<Longrightarrow> q \<notin> set (prefix_paths cur segs) \<Longrightarrow>
   nodes_at q items' = nodes_at q items"
proof (induction segs arbitrary: cur items items')
  case Nil
  then show ?case by simp
next
  case (Cons seg rest)
  let ?p = "cur @ ''/'' @ seg"
  from Cons.prems have qp: "q \<noteq> ?p" and qrest: "q \<notin> set (prefix_paths ?p rest)"
    by simp_all
  show ?case
  proof (cases "find (\<lambda>x. path x = ?p) items")
    case None
    show ?thesis
    proof (cases "rest = []")
      case True
      with None Cons.prems qp show ?thesis
        by (auto simp: walk_final_absent nodes_at_def nodes_append)
    next
      case False
      with None Cons.prems obtain ch' where
        w: "walk rest ?p c [] = Inr ch'" and
        r: "items' = items @ [FileItem seg Folder ?p None (Some ch')]"
        by (auto simp: walk_descend_absent split: sum.splits)
      from Cons.IH[OF w qrest] have "nodes_at q ch' = []"
        by (simp add: nodes_at_def)
      with r qp show ?thesis
        by (simp add: nodes_at_def nodes_append)
    qed
  next
    case (Some x)
    from find_split[OF Some] obtain pre post where
      sp: "items = pre @ x # post" "\<forall>y \<in> set pre. path y \<noteq> ?p" "path x = ?p"
      by blast
    show ?thesis
    proof (cases "rest = []")
      case True
      with Some Cons.prems have "items' = update_first ?p (set_content c) items"
        by (simp add: walk_final_present)
      with sp have "items' = pre @ set_content c x # post"
        by (simp add: update_first_split)
      with sp qp show ?thesis
        by (simp add: nodes_at_def nodes_append nodes_of_eq set_content_def)
    next
      case False
      with Some Cons.prems obtain ch ch' where
        c: "children x = Some ch" and
        w: "walk rest ?p c ch = Inr ch'" and
        r: "items' = update_first ?p (set_children (Some ch')) items"
        by (auto simp: walk_descend_present split: option.splits sum.splits)
      from r sp have r': "items' = pre @ set_children (Some ch') x # post"
        by (simp add: update_first_split)
      from Cons.IH[OF w qrest] have "nodes_at q ch' = nodes_at q ch" .
      with r' sp qp c show ?thesis
        by (simp add: nodes_at_def nodes_append nodes_of_eq set_children_def)
    qed
  qed
qed

lemma processStep_frame:
  "processStep step files = Inr files' \<Longrightarrow> q \<notin> set (touched step) \<Longrightarrow>
   nodes_at q files' = nodes_at q files"
  by (auto simp: processStep_def touched_def split: if_splits dest: walk_frame)

lemma processSteps_frame:
  "processSteps steps files = Inr files' \<Longrightarrow> \<forall>s \<in> set steps. q \<notin> set (touched s) \<Longrightarrow>
   nodes_at q files' = nodes_at q files"
proof (induction steps arbitrary: files)
  case Nil
  then show ?case by simp
next
  case (Cons step rest)
  from Cons.prems(1) obtain mid where
    a: "processStep step files = Inr mid" and b: "processSteps rest mid = Inr files'"
    by (auto split: sum.splits)
  from Cons.prems(2) have "nodes_at q mid = nodes_at q files"
    using processStep_frame[OF a] by simp
  moreover from Cons.prems(2) have "nodes_at q files' = nodes_at q mid"
    using Cons.IH[OF b] by simp
  ultimately show ?case by simp
qed

text \<open>
  C4, as the code has it. Completion sweep: when at least one step is pending and the
  pass returns, every step of the full list is completed afterwards, whatever its kind
  and its status before, and nothing else about the steps changes. A step that was not
  pending contributes nothing to the tree: the new tree is the one the pending steps
  alone produce, and the nodes at any path that no pending CreateFile step addresses are
  the same as before.
\<close>

theorem completion_sweep:
  assumes "reconcile (files, steps) = Inr (files', steps')"
    and "\<exists>s \<in> set steps. status s = ''pending''"
  shows "(\<forall>s \<in> set steps'. status s = ''completed'')
       \<and> steps' = map (\<lambda>s. s\<lparr>status := ''completed''\<rparr>) steps
       \<and> processSteps (filter (\<lambda>s. status s = ''pending'') steps) files = Inr files'
       \<and> (\<forall>q. (\<forall>s \<in> set steps. status s = ''pending'' \<longrightarrow> q \<notin> set (touched s))
              \<longrightarrow> nodes_at q files' = nodes_at q files)"
proof -
  let ?pending = "filter (\<lambda>s. status s = ''pending'') steps"
  from assms(2) have ne: "?pending \<noteq> []"
    by (simp add: filter_empty_conv)
  with assms(1) have ps: "processSteps ?pending files = Inr files'"
    and st: "steps' = map (\<lambda>s. s\<lparr>status := ''completed''\<rparr>) steps"
    by (auto simp: reconcile_def Let_def split: sum.splits)
  from st have "\<forall>s \<in> set steps'. status s = ''completed''"
    by auto
  moreover have "nodes_at q files' = nodes_at q files"
    if "\<forall>s \<in> set steps. status s = ''pending'' \<longrightarrow> q \<notin> set (touched s)" for q
    using processSteps_frame[OF ps, of q] that by simp
  ultimately show ?thesis using ps st by blast
qed

theorem completion_sweep_witness:
  "reconcile ([], [\<lparr>step_type = CreateFile, step_path = Some ''x'', code = Some ''1'', status = ''pending''\<rparr>,
                   \<lparr>step_type = CreateFile, step_path = Some ''y'', code = Some ''2'', status = ''completed''\<rparr>,
                   \<lparr>step_type = RunCommand, step_path = None, code = Some ''npm i'', status = ''pending''\<rparr>])
   = Inr ([FileItem ''x'' File ''/x'' (Some ''1'') None],
          [\<lparr>step_type = CreateFile, step_path = Some ''x'', code = Some ''1'', status = ''completed''\<rparr>,
           \<lparr>step_type = CreateFile, step_path = Some ''y'', code = Some ''2'', status = ''completed''\<rparr>,
           \<lparr>step_type = RunCommand, step_path = None, code = Some ''npm i'', status = ''completed''\<rparr>])
   \<and> nodes_at ''/y'' [FileItem ''x'' File ''/x'' (Some ''1'') None] = nodes_at ''/y'' []"
proof -
  let ?steps = "[\<lparr>step_type = CreateFile, step_path = Some ''x'', code = Some ''1'', status = ''pending''\<rparr>,
                 \<lparr>step_type = CreateFile, step_path = Some ''y'', code = Some ''2'', status = ''completed''\<rparr>,
                 \<lparr>step_type = RunCommand, step_path = None, code = Some ''npm i'', status = ''pending''\<rparr>]"
  let ?files' = "[FileItem ''x'' File ''/x'' (Some ''1'') None]"
  let ?steps' = "map (\<lambda>s. s\<lparr>status := ''completed''\<rparr>) ?steps"
  have r: "reconcile ([], ?steps) = Inr (?files', ?steps')"
    by (simp add: reconcile_def processStep_def walk.simps(2))
  have p: "\<exists>s \<in> set ?steps. status s = ''pending''"
    by simp
  have t: "\<forall>s \<in> set ?steps. status s = ''pending'' \<longrightarrow> ''/y'' \<notin> set (touched s)"
    by (simp add: touched_def)
  from completion_sweep[OF r p] t have "nodes_at ''/y'' ?files' = nodes_at ''/y'' []"
    by blast
  with r show ?thesis by simp
qed

text \<open>
  C4, as the claim states it, fails: the tree at the path of a step that was already
  completed is not always untouched by the pass. Here the completed step and the pending
  one name the same path, and the pass creates the node there (with the pending step's
  code).
\<close>

theorem completed_path_touched:
  "reconcile ([], [\<lparr>step_type = CreateFile, step_path = Some ''x'', code = Some ''1'', status = ''pending''\<rparr>,
                   \<lparr>step_type = CreateFile, step_path = Some ''x'', code = Some ''2'', status = ''completed''\<rparr>])
   = Inr ([FileItem ''x'' File ''/x'' (Some ''1'') None],
          [\<lparr>step_type = CreateFile, step_path = Some ''x'', code = Some ''1'', status = ''completed''\<rparr>,
           \<lparr>step_type = CreateFile, step_path = Some ''x'', code = Some ''2'', status = ''completed''\<rparr>])
   \<and> nodes_at ''/x'' [] = []
   \<and> nodes_at ''/x'' [FileItem ''x'' File ''/x'' (Some ''1'') None] = [FileItem ''x'' File ''/x'' (Some ''1'') None]"
  by (simp add: reconcile_def processStep_def walk.simps(2) nodes_at_def)

subsection \<open>Order of the children\<close>

lemma grows_refl: "grows xs xs" and grows_item_refl: "grows_item x x"
  by (induction xs and x rule: nodes_nodes_of.induct) (simp_all split: option.splits)

lemma grows_append: "grows xs (xs @ ys)"
  by (induction xs) (simp_all add: grows_item_refl)

lemma grows_replace: "grows_item x y \<Longrightarrow> grows (pre @ x # post) (pre @ y # post)"
  by (induction pre) (simp_all add: grows_item_refl grows_refl)

lemma grows_trans: "grows xs ys \<Longrightarrow> grows ys zs \<Longrightarrow> grows xs zs"
  and grows_item_trans: "grows_item x y \<Longrightarrow> grows_item y z \<Longrightarrow> grows_item x z"
proof (induction xs ys and x y arbitrary: zs and z rule: grows_grows_item.induct)
  case (1 new)
  then show ?case by simp
next
  case (2 x xs)
  then show ?case by simp
next
  case (3 x xs y ys)
  then show ?case by (cases zs) auto
next
  case (4 n t p c ch y)
  then show ?case
    by (cases y; cases z) (auto split: option.splits)
qed

lemma walk_grows: "walk segs cur c items = Inr items' \<Longrightarrow> grows items items'"
proof (induction segs arbitrary: cur items items')
  case Nil
  then show ?case by (simp add: grows_refl)
next
  case (Cons seg rest)
  let ?p = "cur @ ''/'' @ seg"
  show ?case
  proof (cases "find (\<lambda>x. path x = ?p) items")
    case None
    show ?thesis
    proof (cases "rest = []")
      case True
      with None Cons.prems show ?thesis
        by (auto simp: walk_final_absent grows_append)
    next
      case False
      with None Cons.prems show ?thesis
        by (auto simp: walk_descend_absent grows_append split: sum.splits)
    qed
  next
    case (Some x)
    from find_split[OF Some] obtain pre post where
      sp: "items = pre @ x # post" "\<forall>y \<in> set pre. path y \<noteq> ?p" "path x = ?p"
      by blast
    show ?thesis
    proof (cases "rest = []")
      case True
      with Some Cons.prems have "items' = update_first ?p (set_content c) items"
        by (simp add: walk_final_present)
      with sp have r: "items' = pre @ set_content c x # post"
        by (simp add: update_first_split)
      have "grows_item x (set_content c x)"
        by (cases x) (simp add: set_content_def grows_refl split: option.splits)
      with r sp show ?thesis
        by (simp add: grows_replace)
    next
      case False
      with Some Cons.prems obtain ch ch' where
        c: "children x = Some ch" and
        w: "walk rest ?p c ch = Inr ch'" and
        r: "items' = update_first ?p (set_children (Some ch')) items"
        by (auto simp: walk_descend_present split: option.splits sum.splits)
      from r sp have r': "items' = pre @ set_children (Some ch') x # post"
        by (simp add: update_first_split)
      from Cons.IH[OF w] have "grows ch ch'" .
      with c have "grows_item x (set_children (Some ch') x)"
        by (cases x) (simp add: set_children_def)
      with r' sp show ?thesis
        by (simp add: grows_replace)
    qed
  qed
qed

lemma processSteps_grows: "processSteps steps files = Inr files' \<Longrightarrow> grows files files'"
proof (induction steps arbitrary: files)
  case Nil
  then show ?case by (simp add: grows_refl)
next
  case (Cons step rest)
  from Cons.prems obtain mid where
    a: "processStep step files = Inr mid" and b: "processSteps rest mid = Inr files'"
    by (auto split: sum.splits)
  from a have "grows files mid"
    by (auto simp: processStep_def grows_refl split: if_splits dest: walk_grows)
  with Cons.IH[OF b] show ?case
    by (blast intro: grows_trans)
qed

lemma reconcile_grows: "reconcile (files, steps) = Inr (files', steps') \<Longrightarrow> grows files files'"
  by (auto simp: reconcile_def Let_def grows_refl split: sum.splits if_splits dest: processSteps_grows)

subsection \<open>Paths in a tree of the shape the page builds\<close>

lemma split_slash_nonempty: "split_slash p \<noteq> []"
  by (induction p) (auto split: list.splits)

lemma split_slash_no_slash: "s \<in> set (split_slash p) \<Longrightarrow> CHR ''/'' \<notin> set s"
  by (induction p arbitrary: s) (auto split: list.splits if_splits)

lemma join_split_slash: "join (split_slash p) = ''/'' @ p"
proof (induction p)
  case Nil
  show ?case by (simp add: join_def)
next
  case (Cons c cs)
  show ?case
  proof (cases "c = CHR ''/''")
    case True
    with Cons show ?thesis by (simp add: join_def)
  next
    case False
    obtain w ws where sp: "split_slash cs = w # ws"
      using split_slash_nonempty[of cs] by (cases "split_slash cs") auto
    with Cons have "w @ join ws = cs" by (simp add: join_def)
    with False sp show ?thesis by (simp add: join_def)
  qed
qed

lemma wf_items_iff:
  "wf_items pre items \<longleftrightarrow> distinct (map path items) \<and> (\<forall>x \<in> set items. wf_item pre x)"
  by (induction items) auto

lemma wf_item_path: "wf_item pre x \<Longrightarrow> path x = pre @ ''/'' @ name x \<and> CHR ''/'' \<notin> set (name x)"
  by (cases x) simp

lemma wf_item_children: "wf_item pre x \<Longrightarrow> children x = Some ch \<Longrightarrow> wf_items (path x) ch"
  by (cases x) simp

text \<open>
  In a tree of that shape the path of a node extends the path of the root-level node it
  sits under, by nothing or by a slash and more.
\<close>

lemma below_extends:
  "wf_items pre items \<Longrightarrow> y \<in> set (nodes items) \<Longrightarrow>
     \<exists>x \<in> set items. \<exists>r. path y = path x @ r \<and> (r = [] \<or> hd r = CHR ''/'') \<and> (r = [] \<longrightarrow> y = x)"
  "wf_item pre x \<Longrightarrow> y \<in> set (nodes_of x) \<Longrightarrow>
     \<exists>r. path y = path x @ r \<and> (r = [] \<or> hd r = CHR ''/'') \<and> (r = [] \<longrightarrow> y = x)"
proof (induction items and x arbitrary: pre y and pre y rule: nodes_nodes_of.induct)
  case 1
  then show ?case by simp
next
  case (2 x xs)
  from "2.prems" have wx: "wf_item pre x" and wxs: "wf_items pre xs" by simp_all
  from "2.prems"(2) consider "y \<in> set (nodes_of x)" | "y \<in> set (nodes xs)" by auto
  then show ?case
  proof cases
    case 1
    from "2.IH"(1)[OF wx 1] show ?thesis by auto
  next
    case 2
    from "2.IH"(2)[OF wxs 2] show ?thesis by auto
  qed
next
  case (3 n t p c ch)
  show ?case
  proof (cases "y = FileItem n t p c ch")
    case True
    then show ?thesis by simp
  next
    case False
    with "3.prems"(2) obtain cs where ch: "ch = Some cs" and y: "y \<in> set (nodes cs)"
      by (auto split: option.splits)
    from "3.prems"(1) have "case ch of None \<Rightarrow> True | Some cs \<Rightarrow> wf_items p cs"
      by simp
    with ch have w: "wf_items p cs" by simp
    from "3.IH"[OF ch w y] obtain z r where
      z: "z \<in> set cs" and r: "path y = path z @ r"
      by blast
    from w z have "wf_item p z" by (simp add: wf_items_iff)
    then have "path z = p @ ''/'' @ name z" by (simp add: wf_item_path)
    with r have "path y = p @ (''/'' @ name z @ r)" by simp
    then show ?thesis by (intro exI[of _ "''/'' @ name z @ r"]) simp
  qed
qed

lemma takeWhile_slash_free:
  "CHR ''/'' \<notin> set n \<Longrightarrow> r = [] \<or> hd r = CHR ''/'' \<Longrightarrow>
   takeWhile (\<lambda>c. c \<noteq> CHR ''/'') (n @ r) = n"
  by (induction n) (auto simp: takeWhile_eq_Nil_iff)

lemma slash_free_prefix:
  assumes "n @ r = s @ t" and "CHR ''/'' \<notin> set n" and "CHR ''/'' \<notin> set s"
    and "r = [] \<or> hd r = CHR ''/''" and "t = [] \<or> hd t = CHR ''/''"
  shows "n = s \<and> r = t"
proof -
  have "takeWhile (\<lambda>c. c \<noteq> CHR ''/'') (n @ r) = n"
    using assms(2,4) by (rule takeWhile_slash_free)
  moreover have "takeWhile (\<lambda>c. c \<noteq> CHR ''/'') (s @ t) = s"
    using assms(3,5) by (rule takeWhile_slash_free)
  ultimately have "n = s" using assms(1) by simp
  with assms(1) show ?thesis by simp
qed

lemma join_Nil_or_slash: "join rest = [] \<or> hd (join rest) = CHR ''/''"
  by (cases rest) (simp_all add: join_def)

lemma join_eq_Nil: "join rest = [] \<longleftrightarrow> rest = []"
  by (cases rest) (simp_all add: join_def)


lemma below_longer:
  assumes "wf_item pre x" and "children x = Some ch" and "y \<in> set (nodes ch)"
  shows "\<exists>r. path y = path x @ r \<and> r \<noteq> [] \<and> hd r = CHR ''/''"
proof -
  from assms(1,2) have w: "wf_items (path x) ch" by (rule wf_item_children)
  from below_extends(1)[OF w assms(3)] obtain z r where
    z: "z \<in> set ch" and r: "path y = path z @ r" by blast
  from w z have "wf_item (path x) z" by (simp add: wf_items_iff)
  then have "path z = path x @ ''/'' @ name z" by (simp add: wf_item_path)
  with r have "path y = path x @ (''/'' @ name z @ r)" by simp
  then show ?thesis by (intro exI[of _ "''/'' @ name z @ r"]) simp
qed

lemma no_match_outside:
  assumes "wf_item pre x" and "path x \<noteq> pre @ ''/'' @ seg" and "CHR ''/'' \<notin> set seg"
    and "t = [] \<or> hd t = CHR ''/''" and "y \<in> set (nodes_of x)"
  shows "path y \<noteq> pre @ ''/'' @ seg @ t"
proof
  assume eq: "path y = pre @ ''/'' @ seg @ t"
  from below_extends(2)[OF assms(1,5)] obtain r where
    r: "path y = path x @ r" "r = [] \<or> hd r = CHR ''/''" by blast
  from assms(1) have px: "path x = pre @ ''/'' @ name x" "CHR ''/'' \<notin> set (name x)"
    by (simp_all add: wf_item_path)
  from eq r(1) px(1) have "name x @ r = seg @ t" by simp
  from slash_free_prefix[OF this px(2) assms(3) r(2) assms(4)] have "name x = seg" by simp
  with px(1) assms(2) show False by simp
qed

lemma nodes_at_outside:
  assumes "wf_items pre items" and "\<forall>z \<in> set items. path z \<noteq> pre @ ''/'' @ seg"
    and "CHR ''/'' \<notin> set seg" and "t = [] \<or> hd t = CHR ''/''"
  shows "nodes_at (pre @ ''/'' @ seg @ t) items = []"
  using assms(1,2)
proof (induction items)
  case Nil
  show ?case by (simp add: nodes_at_def)
next
  case (Cons z zs)
  from Cons.prems have wz: "wf_item pre z" and pz: "path z \<noteq> pre @ ''/'' @ seg" by simp_all
  have "\<forall>y \<in> set (nodes_of z). path y \<noteq> pre @ ''/'' @ seg @ t"
    using no_match_outside[OF wz pz assms(3,4)] by blast
  then have "filter (\<lambda>y. path y = pre @ ''/'' @ seg @ t) (nodes_of z) = []"
    by (simp add: filter_empty_conv)
  moreover from Cons have "nodes_at (pre @ ''/'' @ seg @ t) zs = []" by simp
  ultimately show ?case by (simp add: nodes_at_def)
qed

lemma nodes_at_not_found:
  assumes "wf_items pre items" and "find (\<lambda>x. path x = pre @ ''/'' @ seg) items = None"
    and "CHR ''/'' \<notin> set seg" and "t = [] \<or> hd t = CHR ''/''"
  shows "nodes_at (pre @ ''/'' @ seg @ t) items = []"
proof -
  from assms(2) have "\<forall>z \<in> set items. path z \<noteq> pre @ ''/'' @ seg"
    by (simp add: find_None_iff)
  from nodes_at_outside[OF assms(1) this assms(3,4)] show ?thesis .
qed

lemma nodes_at_found:
  assumes wf: "wf_items pre items" and f: "find (\<lambda>x. path x = pre @ ''/'' @ seg) items = Some x"
    and seg: "CHR ''/'' \<notin> set seg" and t: "t = [] \<or> hd t = CHR ''/''"
  shows "nodes_at (pre @ ''/'' @ seg @ t) items =
     (if t = [] then [x]
      else (case children x of None \<Rightarrow> [] | Some ch \<Rightarrow> nodes_at (pre @ ''/'' @ seg @ t) ch))"
proof -
  let ?p = "pre @ ''/'' @ seg" and ?q = "pre @ ''/'' @ seg @ t"
  from find_split[OF f] obtain l r where
    sp: "items = l @ x # r" "\<forall>y \<in> set l. path y \<noteq> ?p" "path x = ?p" by blast
  from wf sp(1) have wl: "wf_items pre l" and wr: "wf_items pre r" and wx: "wf_item pre x"
    and d: "\<forall>z \<in> set r. path z \<noteq> path x"
    by (auto simp: wf_items_iff image_iff)
  from nodes_at_outside[OF wl sp(2) seg t] have nl: "nodes_at ?q l = []" .
  from d sp(3) have "\<forall>z \<in> set r. path z \<noteq> ?p" by simp
  from nodes_at_outside[OF wr this seg t] have nr: "nodes_at ?q r = []" .
  have kids: "filter (\<lambda>y. path y = ?q) (nodes ch) = []" if "children x = Some ch" "t = []" for ch
  proof -
    have "path y \<noteq> ?q" if "y \<in> set (nodes ch)" for y
      using below_longer[OF wx \<open>children x = Some ch\<close> that] sp(3) \<open>t = []\<close> by auto
    then show ?thesis by (simp add: filter_empty_conv)
  qed
  have "nodes_at ?q items = nodes_at ?q l @ filter (\<lambda>y. path y = ?q) (nodes_of x) @ nodes_at ?q r"
    by (simp add: sp(1) nodes_at_def nodes_append)
  with nl nr have e: "nodes_at ?q items = filter (\<lambda>y. path y = ?q) (nodes_of x)" by simp
  show ?thesis
  proof (cases "t = []")
    case True
    have "(case children x of None \<Rightarrow> [] | Some cs \<Rightarrow> filter (\<lambda>y. path y = ?q) (nodes cs)) = []"
      using kids[OF _ True] by (cases "children x") simp_all
    moreover have "filter (\<lambda>y. path y = ?q) (nodes_of x) =
        x # (case children x of None \<Rightarrow> [] | Some cs \<Rightarrow> filter (\<lambda>y. path y = ?q) (nodes cs))"
      using sp(3) True by (cases "children x") (simp_all add: nodes_of_eq)
    ultimately show ?thesis using e True by simp
  next
    case False
    with sp(3) have "path x \<noteq> ?q" by simp
    then have "filter (\<lambda>y. path y = ?q) (nodes_of x) =
        (case children x of None \<Rightarrow> [] | Some ch \<Rightarrow> nodes_at ?q ch)"
      by (cases "children x") (simp_all add: nodes_of_eq nodes_at_def)
    with e False show ?thesis by simp
  qed
qed


lemma wf_items_replace:
  assumes "wf_items pre (l @ x # r)" and "wf_item pre y" and "path y = path x"
  shows "wf_items pre (l @ y # r)"
  using assms by (auto simp: wf_items_iff)

lemma wf_items_snoc:
  assumes "wf_items pre items" and "wf_item pre y" and "find (\<lambda>x. path x = path y) items = None"
  shows "wf_items pre (items @ [y])"
  using assms by (auto simp: wf_items_iff find_None_iff)

lemma walk_wf:
  "walk segs cur c items = Inr items' \<Longrightarrow> wf_items cur items \<Longrightarrow>
   \<forall>s \<in> set segs. CHR ''/'' \<notin> set s \<Longrightarrow> wf_items cur items'"
proof (induction segs arbitrary: cur items items')
  case Nil
  then show ?case by simp
next
  case (Cons seg rest)
  let ?p = "cur @ ''/'' @ seg"
  from Cons.prems(3) have seg: "CHR ''/'' \<notin> set seg" and rest: "\<forall>s \<in> set rest. CHR ''/'' \<notin> set s"
    by simp_all
  show ?case
  proof (cases "find (\<lambda>x. path x = ?p) items")
    case None
    show ?thesis
    proof (cases "rest = []")
      case True
      with None Cons.prems(1) have r: "items' = items @ [FileItem seg File ?p c None]"
        by (simp add: walk_final_absent)
      have "wf_item cur (FileItem seg File ?p c None)" using seg by simp
      from wf_items_snoc[OF Cons.prems(2) this] None r show ?thesis by simp
    next
      case False
      with None Cons.prems(1) obtain ch' where
        w: "walk rest ?p c [] = Inr ch'" and
        r: "items' = items @ [FileItem seg Folder ?p None (Some ch')]"
        by (auto simp: walk_descend_absent split: sum.splits)
      from Cons.IH[OF w _ rest] have "wf_items ?p ch'" by simp
      then have "wf_item cur (FileItem seg Folder ?p None (Some ch'))" using seg by simp
      from wf_items_snoc[OF Cons.prems(2) this] None r show ?thesis by simp
    qed
  next
    case (Some x)
    from find_split[OF Some] obtain l r where
      sp: "items = l @ x # r" "\<forall>y \<in> set l. path y \<noteq> ?p" "path x = ?p"
      by blast
    from Cons.prems(2) sp(1) have wx: "wf_item cur x" by (simp add: wf_items_iff)
    show ?thesis
    proof (cases "rest = []")
      case True
      with Some Cons.prems(1) have "items' = update_first ?p (set_content c) items"
        by (simp add: walk_final_present)
      with sp have r: "items' = l @ set_content c x # r"
        by (simp add: update_first_split)
      from wx have "wf_item cur (set_content c x)"
        by (cases x) (simp add: set_content_def)
      moreover have "path (set_content c x) = path x" by (simp add: set_content_def)
      ultimately show ?thesis using wf_items_replace Cons.prems(2) sp(1) r by blast
    next
      case False
      with Some Cons.prems(1) obtain ch ch' where
        c: "children x = Some ch" and
        w: "walk rest ?p c ch = Inr ch'" and
        r: "items' = update_first ?p (set_children (Some ch')) items"
        by (auto simp: walk_descend_present split: option.splits sum.splits)
      from r sp have r': "items' = l @ set_children (Some ch') x # r"
        by (simp add: update_first_split)
      from wf_item_children[OF wx c] sp(3) have "wf_items ?p ch" by simp
      from Cons.IH[OF w this rest] have "wf_items ?p ch'" .
      with wx sp(3) have "wf_item cur (set_children (Some ch') x)"
        by (cases x) (simp add: set_children_def)
      moreover have "path (set_children (Some ch') x) = path x" by (simp add: set_children_def)
      ultimately show ?thesis using wf_items_replace Cons.prems(2) sp(1) r' by blast
    qed
  qed
qed


lemma find_middle:
  "\<forall>z \<in> set l. \<not> P z \<Longrightarrow> P y \<Longrightarrow> find P (l @ y # r) = Some y"
  by (induction l) simp_all

lemma join_Cons: "cur @ join (seg # rest) = cur @ ''/'' @ seg @ join rest"
  by (simp add: join_def)

lemma walk_target:
  assumes "walk segs cur c items = Inr items'" and "wf_items cur items"
    and "\<forall>s \<in> set segs. CHR ''/'' \<notin> set s" and "segs \<noteq> []"
  shows "nodes_at (cur @ join segs) items' =
     (case nodes_at (cur @ join segs) items of
        [] \<Rightarrow> [FileItem (last segs) File (cur @ join segs) c None]
      | x # xs \<Rightarrow> [set_content c x])"
  using assms
proof (induction segs arbitrary: cur items items')
  case Nil
  then show ?case by simp
next
  case (Cons seg rest)
  let ?p = "cur @ ''/'' @ seg"
  let ?q = "cur @ ''/'' @ seg @ join rest"
  note t = join_Nil_or_slash[of rest]
  from Cons.prems(3) have seg: "CHR ''/'' \<notin> set seg" and rest: "\<forall>s \<in> set rest. CHR ''/'' \<notin> set s"
    by simp_all
  from walk_wf[OF Cons.prems(1,2,3)] have wf': "wf_items cur items'" .
  have "nodes_at ?q items' =
     (case nodes_at ?q items of
        [] \<Rightarrow> [FileItem (last (seg # rest)) File ?q c None]
      | x # xs \<Rightarrow> [set_content c x])"
  proof (cases "find (\<lambda>x. path x = ?p) items")
    case None
    from nodes_at_not_found[OF Cons.prems(2) None seg t] have old: "nodes_at ?q items = []" .
    show ?thesis
    proof (cases "rest = []")
      case True
      with None Cons.prems(1) have r: "items' = items @ [FileItem seg File ?p c None]"
        by (simp add: walk_final_absent)
      from True have "join rest = []" by (simp add: join_eq_Nil)
      with r old True show ?thesis
        by (simp add: nodes_at_def nodes_append)
    next
      case False
      with None Cons.prems(1) obtain ch' where
        w: "walk rest ?p c [] = Inr ch'" and
        r: "items' = items @ [FileItem seg Folder ?p None (Some ch')]"
        by (auto simp: walk_descend_absent split: sum.splits)
      from Cons.IH[OF w _ rest False]
      have "nodes_at (?p @ join rest) ch' = [FileItem (last rest) File (?p @ join rest) c None]"
        by (simp add: nodes_at_def)
      moreover from False have "join rest \<noteq> []" by (simp add: join_eq_Nil)
      ultimately show ?thesis using r old False
        by (simp add: nodes_at_def nodes_append)
    qed
  next
    case (Some x)
    from find_split[OF Some] obtain l r where
      sp: "items = l @ x # r" "\<forall>y \<in> set l. path y \<noteq> ?p" "path x = ?p"
      by blast
    from Cons.prems(2) sp(1) have wx: "wf_item cur x" by (simp add: wf_items_iff)
    note old = nodes_at_found[OF Cons.prems(2) Some seg t]
    show ?thesis
    proof (cases "rest = []")
      case True
      then have j: "join rest = []" by (simp add: join_eq_Nil)
      from True Some Cons.prems(1) have "items' = update_first ?p (set_content c) items"
        by (simp add: walk_final_present)
      with sp have r: "items' = l @ set_content c x # r"
        by (simp add: update_first_split)
      have "find (\<lambda>x. path x = ?p) items' = Some (set_content c x)"
        unfolding r using sp(2,3) by (intro find_middle) (simp_all add: set_content_def)
      from nodes_at_found[OF wf' this seg t] j have "nodes_at ?q items' = [set_content c x]"
        by simp
      with old j show ?thesis by simp
    next
      case False
      then have j: "join rest \<noteq> []" by (simp add: join_eq_Nil)
      from False Some Cons.prems(1) obtain ch ch' where
        c: "children x = Some ch" and
        w: "walk rest ?p c ch = Inr ch'" and
        r: "items' = update_first ?p (set_children (Some ch')) items"
        by (auto simp: walk_descend_present split: option.splits sum.splits)
      from r sp have r': "items' = l @ set_children (Some ch') x # r"
        by (simp add: update_first_split)
      from wf_item_children[OF wx c] sp(3) have wch: "wf_items ?p ch" by simp
      have "find (\<lambda>x. path x = ?p) items' = Some (set_children (Some ch') x)"
        unfolding r' using sp(2,3) by (intro find_middle) (simp_all add: set_children_def)
      from nodes_at_found[OF wf' this seg t] j have new: "nodes_at ?q items' = nodes_at ?q ch'"
        by (simp add: set_children_def)
      from old j c have old': "nodes_at ?q items = nodes_at ?q ch" by simp
      from Cons.IH[OF w wch rest False] new old' False show ?thesis
        by (simp split: list.splits)
    qed
  qed
  then show ?case by (simp only: join_Cons)
qed


lemma walk_overwrite:
  assumes "wf_items cur items" and "\<forall>s \<in> set segs. CHR ''/'' \<notin> set s" and "segs \<noteq> []"
    and "nodes_at (cur @ join segs) items \<noteq> []"
  shows "\<exists>items'. walk segs cur c items = Inr items' \<and> length items' = length items \<and>
           list_all2 (only_content_edited (cur @ join segs) c) (nodes items) (nodes items')"
  using assms
proof (induction segs arbitrary: cur items)
  case Nil
  then show ?case by simp
next
  case (Cons seg rest)
  let ?p = "cur @ ''/'' @ seg"
  let ?q = "cur @ ''/'' @ seg @ join rest"
  note t = join_Nil_or_slash[of rest]
  from Cons.prems(2) have seg: "CHR ''/'' \<notin> set seg" and rest: "\<forall>s \<in> set rest. CHR ''/'' \<notin> set s"
    by simp_all
  from Cons.prems(4) have ne: "nodes_at ?q items \<noteq> []" by (simp add: join_def)
  have "\<exists>items'. walk (seg # rest) cur c items = Inr items' \<and> length items' = length items \<and>
           list_all2 (only_content_edited ?q c) (nodes items) (nodes items')"
  proof (cases "find (\<lambda>x. path x = ?p) items")
    case None
    from nodes_at_not_found[OF Cons.prems(1) None seg t] ne show ?thesis by simp
  next
    case (Some x)
    from find_split[OF Some] obtain l r where
      sp: "items = l @ x # r" "\<forall>y \<in> set l. path y \<noteq> ?p" "path x = ?p"
      by blast
    from Cons.prems(1) sp(1) have wx: "wf_item cur x" by (simp add: wf_items_iff)
    note old = nodes_at_found[OF Cons.prems(1) Some seg t]
    show ?thesis
    proof (cases "rest = []")
      case True
      then have j: "join rest = []" by (simp add: join_eq_Nil)
      from True Some have w: "walk (seg # rest) cur c items = Inr (update_first ?p (set_content c) items)"
        by (simp add: walk_final_present)
      from sp have r: "update_first ?p (set_content c) items = l @ set_content c x # r"
        by (simp add: update_first_split)
      have "only_content_edited ?q c x (set_content c x)"
        using sp(3) j by (simp add: only_content_edited_def set_content_def)
      then have "list_all2 (only_content_edited ?q c) (nodes_of x) (nodes_of (set_content c x))"
        by (simp add: nodes_of_eq same_nodes_edited) (simp add: set_content_def same_nodes_edited)
      then have "list_all2 (only_content_edited ?q c) (nodes items) (nodes (l @ set_content c x # r))"
        unfolding sp(1) by (simp add: nodes_append list_all2_appendI same_nodes_edited)
      with w r sp(1) show ?thesis by simp
    next
      case False
      then have j: "join rest \<noteq> []" by (simp add: join_eq_Nil)
      from old j ne obtain ch where c: "children x = Some ch" and nch: "nodes_at ?q ch \<noteq> []"
        by (cases "children x") auto
      from wf_item_children[OF wx c] sp(3) have wch: "wf_items ?p ch" by simp
      from nch have "nodes_at (?p @ join rest) ch \<noteq> []" by simp
      from Cons.IH[OF wch rest False this] obtain ch' where
        w: "walk rest ?p c ch = Inr ch'" and len: "length ch' = length ch" and
        ed: "list_all2 (only_content_edited ?q c) (nodes ch) (nodes ch')"
        by auto
      from False Some c w
      have w': "walk (seg # rest) cur c items = Inr (update_first ?p (set_children (Some ch')) items)"
        by (simp add: walk_descend_present)
      from sp have r: "update_first ?p (set_children (Some ch')) items = l @ set_children (Some ch') x # r"
        by (simp add: update_first_split)
      have "only_content_edited ?q c x (set_children (Some ch') x)"
        using c len by (simp add: only_content_edited_def set_children_def)
      with ed c have "list_all2 (only_content_edited ?q c) (nodes_of x) (nodes_of (set_children (Some ch') x))"
        by (simp add: nodes_of_eq) (simp add: set_children_def)
      then have "list_all2 (only_content_edited ?q c) (nodes items) (nodes (l @ set_children (Some ch') x # r))"
        unfolding sp(1) by (simp add: nodes_append list_all2_appendI same_nodes_edited)
      with w' r sp(1) show ?thesis by simp
    qed
  qed
  then show ?case by (simp only: join_Cons)
qed


lemma segments_of_path:
  "split_slash p \<noteq> [] \<and> (\<forall>s \<in> set (split_slash p). CHR ''/'' \<notin> set s) \<and>
   [] @ join (split_slash p) = ''/'' @ p"
  by (simp add: split_slash_nonempty split_slash_no_slash join_split_slash)



lemma updateItem_path: "path (updateItem p c item) = path item"
  by (cases item) (simp split: option.splits)

lemma updateFileContent_paths: "map path (updateFileContent p c items) = map path items"
  by (induction items) (simp_all add: updateItem_path)

lemma updateFileContent_wf:
  "wf_items pre items \<Longrightarrow> wf_items pre (updateFileContent p c items)"
  "wf_item pre item \<Longrightarrow> wf_item pre (updateItem p c item)"
proof (induction p c items and p c item arbitrary: pre and pre rule: updateFileContent_updateItem.induct)
  case (1 p newContent)
  show ?case by simp
next
  case (2 p newContent item items)
  from "2.prems" have "wf_item pre item" "wf_items pre items" "path item \<notin> path ` set items"
    by simp_all
  moreover have "path (updateItem p newContent item) = path item"
    by (rule updateItem_path)
  moreover have "path ` set (updateFileContent p newContent items) = path ` set items"
    using updateFileContent_paths[of p newContent items] by (metis list.set_map)
  ultimately show ?case using "2.IH" by simp
next
  case (3 p newContent n t q c ch)
  then show ?case by (auto split: option.splits)
qed

lemma handleCodeChange_wf:
  "wf_items [] prevFiles \<Longrightarrow> wf_items [] (handleCodeChange selectedFile newContent prevFiles)"
  by (cases selectedFile) (simp_all add: handleCodeChange_def updateFileContent_wf(1))

subsection \<open>Kinds, prefixes and the order of a pass\<close>








lemma updateFileContent_kinds:
  "kinds_items items \<Longrightarrow> kinds_items (updateFileContent p c items)"
  "kinds_item item \<Longrightarrow> kinds_item (updateItem p c item)"
  by (induction p c items and p c item rule: updateFileContent_updateItem.induct)
     (auto split: option.splits)

lemma handleCodeChange_kinds:
  "kinds_items prevFiles \<Longrightarrow> kinds_items (handleCodeChange selectedFile newContent prevFiles)"
  by (cases selectedFile) (simp_all add: handleCodeChange_def updateFileContent_kinds(1))

lemma processSteps_append:
  "processSteps (ss1 @ ss2) files = Inr files' \<Longrightarrow>
   \<exists>mid. processSteps ss1 files = Inr mid \<and> processSteps ss2 mid = Inr files'"
  by (induction ss1 arbitrary: files) (auto split: sum.splits)











lemma walk_appends:
  assumes "walk (seg # rest) cur c items = Inr items'"
  shows "if find (\<lambda>x. path x = cur @ ''/'' @ seg) items = None
         then \<exists>y. items' = items @ [y] \<and> name y = seg \<and> path y = cur @ ''/'' @ seg
         else map name items' = map name items \<and> map path items' = map path items"
proof (cases "find (\<lambda>x. path x = cur @ ''/'' @ seg) items")
  case None
  with assms show ?thesis
    by (cases "rest = []") (auto simp: walk_final_absent walk_descend_absent split: sum.splits)
next
  case (Some x)
  let ?p = "cur @ ''/'' @ seg"
  from find_split[OF Some] obtain l r where
    sp: "items = l @ x # r" "\<forall>y \<in> set l. path y \<noteq> ?p" "path x = ?p"
    by blast
  have "\<exists>f. items' = update_first ?p f items \<and> (\<forall>z. name (f z) = name z \<and> path (f z) = path z)"
  proof (cases "rest = []")
    case True
    with Some assms have "items' = update_first ?p (set_content c) items"
      by (simp add: walk_final_present)
    then show ?thesis by (intro exI[of _ "set_content c"]) (simp add: set_content_def)
  next
    case False
    with Some assms obtain ch' where "items' = update_first ?p (set_children (Some ch')) items"
      by (auto simp: walk_descend_present split: option.splits sum.splits)
    then show ?thesis by (intro exI[of _ "set_children (Some ch')"]) (simp add: set_children_def)
  qed
  then obtain f where f: "items' = update_first ?p f items" "\<forall>z. name (f z) = name z \<and> path (f z) = path z"
    by blast
  from f(1) sp have "items' = l @ f x # r" by (simp add: update_first_split)
  with sp(1) f(2) Some show ?thesis by simp
qed

lemma pass_in_order:
  assumes "reconcile (files, steps) = Inr (files', steps')"
    and "filter (\<lambda>s. status s = ''pending'') steps = ss1 @ ss2"
  shows "\<exists>mid. processSteps ss1 files = Inr mid \<and> processSteps ss2 mid = Inr files' \<and>
               grows files mid \<and> grows mid files'"
proof -
  from assms have "processSteps (ss1 @ ss2) files = Inr files'"
    by (cases "ss1 @ ss2 = []") (auto simp: reconcile_def Let_def split: sum.splits)
  from processSteps_append[OF this] obtain mid where
    "processSteps ss1 files = Inr mid" "processSteps ss2 mid = Inr files'" by blast
  then show ?thesis by (blast intro: processSteps_grows)
qed

text \<open>
  C5, as the code has it. Path uniqueness, last writer wins: on a tree of the shape the
  page builds, when no node at the path is a folder and the pass returns, two pending
  CreateFile steps with the same path leave exactly one node at that path, a file whose
  content is the code of the later step. Applying a CreateFile step to a path that exists
  returns, keeps the shape of the tree and every node's name, kind and path, and changes
  the content of the node at that path only.
\<close>

theorem path_uniqueness:
  assumes wf: "wf_items [] files"
    and s1: "step_type s1 = CreateFile \<and> step_path s1 = Some p \<and> status s1 = ''pending''"
    and s2: "step_type s2 = CreateFile \<and> step_path s2 = Some p \<and> status s2 = ''pending''"
  shows "(reconcile (files, [s1, s2]) = Inr (files', steps') \<and>
          (\<forall>x \<in> set (nodes_at (''/'' @ p) files). type x = File)
          \<longrightarrow> (\<exists>x. nodes_at (''/'' @ p) files' = [x] \<and> type x = File \<and> content x = code s2))
       \<and> (nodes_at (''/'' @ p) files \<noteq> []
          \<longrightarrow> (\<exists>files1 steps1. reconcile (files, [s1]) = Inr (files1, steps1) \<and>
                 list_all2 (only_content_edited (''/'' @ p) (code s1)) (nodes files) (nodes files1)))"
proof (intro conjI impI)
  let ?segs = "split_slash p" and ?q = "''/'' @ p"
  note sg = segments_of_path[of p]
  from sg have ne: "?segs \<noteq> []" and sf: "\<forall>s \<in> set ?segs. CHR ''/'' \<notin> set s"
    and q: "[] @ join ?segs = ?q" by simp_all
  {
    assume a: "reconcile (files, [s1, s2]) = Inr (files', steps') \<and>
          (\<forall>x \<in> set (nodes_at ?q files). type x = File)"
    with s1 s2 obtain mid where
      w1: "walk ?segs [] (code s1) files = Inr mid" and
      w2: "walk ?segs [] (code s2) mid = Inr files'"
      by (auto simp: reconcile_def processStep_def split: sum.splits)
    from walk_wf[OF w1 wf sf] have wm: "wf_items [] mid" .
    from walk_target[OF w1 wf sf ne] q
    have m: "nodes_at ?q mid =
       (case nodes_at ?q files of
          [] \<Rightarrow> [FileItem (last ?segs) File ?q (code s1) None]
        | x # xs \<Rightarrow> [set_content (code s1) x])"
      by (simp split: list.splits)
    from a have "\<exists>y. nodes_at ?q mid = [y] \<and> type y = File"
      unfolding m by (cases "nodes_at ?q files") (simp_all add: set_content_def)
    then obtain y where y: "nodes_at ?q mid = [y]" "type y = File" by blast
    from walk_target[OF w2 wm sf ne] q y(1)
    have "nodes_at ?q files' = [set_content (code s2) y]" by simp
    with y(2) show "\<exists>x. nodes_at ?q files' = [x] \<and> type x = File \<and> content x = code s2"
      by (simp add: set_content_def)
  }
  {
    assume "nodes_at ?q files \<noteq> []"
    with q have "nodes_at ([] @ join ?segs) files \<noteq> []" by simp
    from walk_overwrite[OF wf sf ne this, of "code s1"] q obtain files1 where
      w: "walk ?segs [] (code s1) files = Inr files1" and
      ed: "list_all2 (only_content_edited ?q (code s1)) (nodes files) (nodes files1)"
      by auto
    from w s1 have "reconcile (files, [s1]) = Inr (files1, [s1\<lparr>status := ''completed''\<rparr>])"
      by (simp add: reconcile_def processStep_def)
    with ed show "\<exists>files1 steps1. reconcile (files, [s1]) = Inr (files1, steps1) \<and>
                 list_all2 (only_content_edited ?q (code s1)) (nodes files) (nodes files1)"
      by blast
  }
qed

theorem path_uniqueness_witness:
  "(\<exists>x. nodes_at ''/x'' [FileItem ''x'' File ''/x'' (Some ''2'') None] = [x] \<and> type x = File \<and> content x = Some ''2'')
   \<and> (\<exists>files1 steps1.
         reconcile ([FileItem ''x'' File ''/x'' (Some ''0'') None],
                    [\<lparr>step_type = CreateFile, step_path = Some ''x'', code = Some ''1'', status = ''pending''\<rparr>])
           = Inr (files1, steps1) \<and>
         list_all2 (only_content_edited ''/x'' (Some ''1''))
           (nodes [FileItem ''x'' File ''/x'' (Some ''0'') None]) (nodes files1))"
proof -
  let ?files = "[FileItem ''x'' File ''/x'' (Some ''0'') None]"
  let ?s1 = "\<lparr>step_type = CreateFile, step_path = Some ''x'', code = Some ''1'', status = ''pending''\<rparr>"
  let ?s2 = "\<lparr>step_type = CreateFile, step_path = Some ''x'', code = Some ''2'', status = ''pending''\<rparr>"
  let ?files' = "[FileItem ''x'' File ''/x'' (Some ''2'') None]"
  let ?steps' = "[?s1\<lparr>status := ''completed''\<rparr>, ?s2\<lparr>status := ''completed''\<rparr>]"
  have wf: "wf_items [] ?files" by simp
  have a1: "step_type ?s1 = CreateFile \<and> step_path ?s1 = Some ''x'' \<and> status ?s1 = ''pending''" by simp
  have a2: "step_type ?s2 = CreateFile \<and> step_path ?s2 = Some ''x'' \<and> status ?s2 = ''pending''" by simp
  have r: "reconcile (?files, [?s1, ?s2]) = Inr (?files', ?steps')"
    by (simp add: reconcile_def processStep_def walk.simps(2) set_content_def)
  have f: "\<forall>x \<in> set (nodes_at (''/'' @ ''x'') ?files). type x = File"
    by (simp add: nodes_at_def)
  have n: "nodes_at (''/'' @ ''x'') ?files \<noteq> []"
    by (simp add: nodes_at_def)
  note t = path_uniqueness[OF wf a1 a2, of ?files' ?steps']
  from t r f have "\<exists>x. nodes_at (''/'' @ ''x'') ?files' = [x] \<and> type x = File \<and> content x = code ?s2"
    by blast
  moreover from t n have "\<exists>files1 steps1. reconcile (?files, [?s1]) = Inr (files1, steps1) \<and>
      list_all2 (only_content_edited (''/'' @ ''x'') (code ?s1)) (nodes ?files) (nodes files1)"
    by blast
  ultimately show ?thesis by simp
qed

text \<open>
  C5, as the claim states it, fails: not on every tree do two CreateFile steps with the
  same path leave a file there. After the step \<^verbatim>\<open>a/b\<close> the node at \<^verbatim>\<open>/a\<close> is a folder; two
  steps with the path \<^verbatim>\<open>a\<close> overwrite its content and leave it a folder, so no file node
  is at \<^verbatim>\<open>/a\<close>.
\<close>

theorem folder_at_file_path:
  "reconcile ([], [\<lparr>step_type = CreateFile, step_path = Some ''a/b'', code = Some ''0'', status = ''pending''\<rparr>])
     = Inr ([FileItem ''a'' Folder ''/a'' None (Some [FileItem ''b'' File ''/a/b'' (Some ''0'') None])],
            [\<lparr>step_type = CreateFile, step_path = Some ''a/b'', code = Some ''0'', status = ''completed''\<rparr>])
   \<and> reconcile ([FileItem ''a'' Folder ''/a'' None (Some [FileItem ''b'' File ''/a/b'' (Some ''0'') None])],
                [\<lparr>step_type = CreateFile, step_path = Some ''a'', code = Some ''1'', status = ''pending''\<rparr>,
                 \<lparr>step_type = CreateFile, step_path = Some ''a'', code = Some ''2'', status = ''pending''\<rparr>])
     = Inr ([FileItem ''a'' Folder ''/a'' (Some ''2'') (Some [FileItem ''b'' File ''/a/b'' (Some ''0'') None])],
            [\<lparr>step_type = CreateFile, step_path = Some ''a'', code = Some ''1'', status = ''completed''\<rparr>,
             \<lparr>step_type = CreateFile, step_path = Some ''a'', code = Some ''2'', status = ''completed''\<rparr>])
   \<and> nodes_at ''/a'' [FileItem ''a'' Folder ''/a'' (Some ''2'') (Some [FileItem ''b'' File ''/a/b'' (Some ''0'') None])]
     = [FileItem ''a'' Folder ''/a'' (Some ''2'') (Some [FileItem ''b'' File ''/a/b'' (Some ''0'') None])]"
  by (simp add: reconcile_def processStep_def walk.simps(2) set_content_def set_children_def nodes_at_def)



section \<open>Facts about the edit operation\<close>

text \<open>
  C10. With no file selected (\<^verbatim>\<open>selectedFile\<close> is null) the edit operation leaves the
  tree as it is, whatever the new content.
\<close>

theorem handleCodeChange_no_selection:
  "handleCodeChange None newContent prevFiles = prevFiles"
  by (simp add: handleCodeChange_def)

lemma length_updateFileContent: "length (updateFileContent p c items) = length items"
  by (induction items) simp_all

lemma edit_nodes:
  "list_all2 (only_content_edited p (Some c)) (nodes items) (nodes (updateFileContent p c items))"
  "list_all2 (only_content_edited p (Some c)) (nodes_of item) (nodes_of (updateItem p c item))"
proof (induction p c items and p c item rule: updateFileContent_updateItem.induct)
  case (1 p newContent)
  show ?case by simp
next
  case (2 p newContent item items)
  then show ?case by (simp add: list_all2_appendI)
next
  case (3 p newContent n t q c ch)
  show ?case
  proof (cases "q = p")
    case True
    then show ?thesis
      by (simp add: same_nodes_edited) (simp add: only_content_edited_def)
  next
    case False
    show ?thesis
    proof (cases ch)
      case None
      with False show ?thesis by (simp add: only_content_edited_def)
    next
      case (Some cs)
      show ?thesis
      proof (cases "t = Folder")
        case True
        with False Some 3
        have "list_all2 (only_content_edited p (Some newContent)) (nodes cs)
                (nodes (updateFileContent p newContent cs))"
          by simp
        then show ?thesis using False Some True
          by (simp add: length_updateFileContent)
             (simp add: only_content_edited_def length_updateFileContent)
      next
        case no_folder: False
        with False Some show ?thesis
          by (simp add: same_nodes_edited) (simp add: only_content_edited_def)
      qed
    qed
  qed
qed

text \<open>
  C9. Edit isolation: an edit at the path of the selected file keeps the shape of the
  tree, and every node keeps its name, kind, path and number of children; the content of
  a node changes only if its path is the edited one, and then to the new content. So
  siblings, ancestors and unrelated subtrees are as they were.
\<close>

theorem edit_isolation:
  "list_all2 (only_content_edited (path sel) (Some newContent))
     (nodes prevFiles) (nodes (handleCodeChange (Some sel) newContent prevFiles))"
  by (simp add: handleCodeChange_def edit_nodes(1))

theorem edit_isolation_witness:
  "list_all2 (only_content_edited ''/a/b.txt'' (Some ''new''))
     (nodes [FileItem ''a'' Folder ''/a'' None (Some
               [FileItem ''b.txt'' File ''/a/b.txt'' (Some ''old'') None,
                FileItem ''c.txt'' File ''/a/c.txt'' (Some ''other'') None])])
     (nodes [FileItem ''a'' Folder ''/a'' None (Some
               [FileItem ''b.txt'' File ''/a/b.txt'' (Some ''new'') None,
                FileItem ''c.txt'' File ''/a/c.txt'' (Some ''other'') None])])"
  using edit_isolation
    [of "FileItem ''b.txt'' File ''/a/b.txt'' (Some ''old'') None" "''new''"
        "[FileItem ''a'' Folder ''/a'' None (Some
               [FileItem ''b.txt'' File ''/a/b.txt'' (Some ''old'') None,
                FileItem ''c.txt'' File ''/a/c.txt'' (Some ''other'') None])]"]
  by (simp add: handleCodeChange_def)

section \<open>Facts about the mount projector\<close>

lemma not_array_index_hd: "s \<noteq> [] \<Longrightarrow> \<not> is_digit (hd s) \<Longrightarrow> \<not> is_array_index s"
  by (cases s) (auto simp: is_array_index_def)

lemma update_new_key: "k \<notin> fst ` set obj \<Longrightarrow> AList.update k v obj = obj @ [(k, v)]"
  by (induction obj) auto

lemma foldl_update_distinct:
  "distinct (map fst (acc @ es)) \<Longrightarrow>
   foldl (\<lambda>obj e. AList.update (fst e) (snd e) obj) acc es = acc @ es"
proof (induction es arbitrary: acc)
  case Nil
  then show ?case by simp
next
  case (Cons e es)
  from Cons.prems have "fst e \<notin> fst ` set acc" by auto
  then have "AList.update (fst e) (snd e) acc = acc @ [e]"
    by (simp add: update_new_key)
  moreover from Cons.prems have "distinct (map fst ((acc @ [e]) @ es))" by simp
  ultimately show ?case using Cons.IH[of "acc @ [e]"] by simp
qed

lemma fromEntries_distinct: "distinct (map fst es) \<Longrightarrow> fromEntries es = es"
  using foldl_update_distinct[of "[]" es] by (simp add: fromEntries_def)

lemma own_keys_no_index:
  "\<forall>k \<in> fst ` set obj. \<not> is_array_index k \<Longrightarrow> own_keys obj = map fst obj"
proof -
  assume h: "\<forall>k \<in> fst ` set obj. \<not> is_array_index k"
  then have "filter is_array_index (map fst obj) = []"
    by (auto simp: filter_empty_conv)
  moreover from h have "filter (\<lambda>k. \<not> is_array_index k) (map fst obj) = map fst obj"
    by (auto simp: filter_id_conv)
  ultimately show ?thesis by (simp add: own_keys_def)
qed

lemma processChildren_keys: "map fst (fst (processChildren cs m)) = map name cs"
proof (induction cs arbitrary: m)
  case Nil
  show ?case by simp
next
  case (Cons child cs)
  obtain d m1 where a: "processFile child False m = (d, m1)"
    by (cases "processFile child False m")
  obtain es m2 where b: "processChildren cs m1 = (es, m2)"
    by (cases "processChildren cs m1")
  from Cons.IH[of m1] b have "map fst es = map name cs" by simp
  with a b show ?case by simp
qed

lemma folder_keys:
  assumes "distinct (map name cs)" and "\<forall>x \<in> set cs. \<not> is_array_index (name x)"
  shows "directory_keys (fst (processFile (FileItem n Folder p c (Some cs)) r m)) = map name cs"
proof -
  obtain es m1 where pc: "processChildren cs m = (es, m1)" by (cases "processChildren cs m")
  with processChildren_keys[of cs m] have k: "map fst es = map name cs" by simp
  with assms(1) have "fromEntries es = es" by (simp add: fromEntries_distinct)
  moreover from k assms(2) have "\<forall>k \<in> fst ` set es. \<not> is_array_index k"
    by (metis (no_types, lifting) imageE list.set_map)
  ultimately show ?thesis using pc k
    by (simp add: directory_keys_def own_keys_no_index Let_def)
qed

lemma assign_other: "n \<noteq> k \<Longrightarrow> map_of (props (assign k v m)) n = map_of (props m) n"
  by (auto simp: assign_def update_conv')

lemma assign_same: "n \<noteq> ''__proto__'' \<Longrightarrow> map_of (props (assign n v m)) n = Some v"
  by (simp add: assign_def update_conv')

lemma processFile_keeps:
  "n \<notin> set (assigned f r) \<Longrightarrow> map_of (props (snd (processFile f r m))) n = map_of (props m) n"
  "n \<notin> set (assigned_children cs) \<Longrightarrow> map_of (props (snd (processChildren cs m))) n = map_of (props m) n"
proof (induction f r m and cs m rule: processFile_processChildren.induct)
  case (1 n' p c isRootFolder m)
  then show ?case by (simp add: assign_other Let_def)
next
  case (2 n' p c cs isRootFolder m)
  obtain es m1 where pc: "processChildren cs m = (es, m1)" by (cases "processChildren cs m")
  with 2 show ?case by (simp add: assign_other Let_def)
next
  case (3 n' p c ch isRootFolder m)
  then show ?case by (cases isRootFolder) (simp_all add: assign_other Let_def)
next
  case (4 m)
  show ?case by simp
next
  case (5 child cs m)
  obtain d m1 where a: "processFile child False m = (d, m1)" by (cases "processFile child False m")
  obtain es m2 where b: "processChildren cs m1 = (es, m2)" by (cases "processChildren cs m1")
  from 5 a b show ?case by simp
qed

lemma foldl_processFile_keeps:
  "n \<notin> set (assigned_roots post) \<Longrightarrow>
   map_of (props (foldl (\<lambda>m file. snd (processFile file True m)) m post)) n = map_of (props m) n"
  by (induction post arbitrary: m) (simp_all add: assigned_roots_def processFile_keeps(1))


lemma createMountStructure_split:
  "createMountStructure (pre @ f # post) =
   foldl (\<lambda>m file. snd (processFile file True m)) (snd (processFile f True (createMountStructure pre))) post"
  by (simp add: createMountStructure_def)

lemma processFile_descriptor:
  "fst (processFile f r m) = descriptor f"
  "fst (processChildren cs m) = map (\<lambda>child. (name child, descriptor child)) cs"
proof (induction f r m and cs m rule: processFile_processChildren.induct)
  case (1 n p c isRootFolder m)
  show ?case by (simp add: Let_def)
next
  case (2 n p c cs isRootFolder m)
  obtain es m1 where pc: "processChildren cs m = (es, m1)" by (cases "processChildren cs m")
  with 2 show ?case by (simp add: Let_def)
next
  case (3 n p c ch isRootFolder m)
  show ?case by (simp add: Let_def)
next
  case (4 m)
  show ?case by simp
next
  case (5 child cs m)
  obtain d m1 where a: "processFile child False m = (d, m1)" by (cases "processFile child False m")
  obtain es m2 where b: "processChildren cs m1 = (es, m2)" by (cases "processChildren cs m1")
  from 5 a b show ?case by simp
qed

lemma root_binding:
  assumes "n \<noteq> ''__proto__''" and "n \<notin> set (assigned_roots post)"
    and "snd (processFile f True (createMountStructure pre)) = assign n d m1"
  shows "map_of (props (createMountStructure (pre @ f # post))) n = Some d"
  using assms
  by (simp add: createMountStructure_split foldl_processFile_keeps assign_same)

lemma directory_binding:
  assumes "distinct (map name cs)" and "child \<in> set cs"
  shows "\<exists>es. fst (processFile (FileItem n Folder p c (Some cs)) r m) = DirectoryD es \<and>
              map_of es (name child) = Some (descriptor child)"
proof -
  let ?es = "map (\<lambda>child. (name child, descriptor child)) cs"
  have "map fst ?es = map name cs" by (simp add: comp_def)
  with assms(1) have d: "distinct (map fst ?es)" by (simp add: comp_def)
  then have "fromEntries ?es = ?es" by (rule fromEntries_distinct)
  moreover from assms(2) have "(name child, descriptor child) \<in> set ?es" by auto
  with d have "map_of ?es (name child) = Some (descriptor child)" by (rule map_of_is_SomeI)
  ultimately show ?thesis
    using processFile_descriptor(1)[of "FileItem n Folder p c (Some cs)" r m] by simp
qed

text \<open>
  C6, as the code has it. First-seen order. One round of the walk, at any level: when
  the path of the segment is absent from the children sequence it stands in, the sequence
  afterwards is the old one with one node appended at the end; when present, the names
  and paths of the sequence are as before. A pass applies the pending steps in the order
  of the list: for every split of them, what the later steps make of the tree the earlier
  ones left only grows it (existing nodes keep their places at every level, new ones come
  last). The directory descriptor of a folder lists its children in their order when
  their names are distinct and none is an array index. The steps \<^verbatim>\<open>a/b.txt\<close>, \<^verbatim>\<open>a/c.txt\<close>,
  \<^verbatim>\<open>a/b.txt\<close> on the empty tree give a directory \<^verbatim>\<open>a\<close> with the keys \<^verbatim>\<open>b.txt\<close>, \<^verbatim>\<open>c.txt\<close>;
  the steps \<^verbatim>\<open>a/c.txt\<close>, \<^verbatim>\<open>a/b.txt\<close>, \<^verbatim>\<open>a/c.txt\<close> give the keys \<^verbatim>\<open>c.txt\<close>, \<^verbatim>\<open>b.txt\<close>.
\<close>

theorem first_seen_order:
  "(walk (seg # rest) cur c items = Inr items' \<longrightarrow>
      (if find (\<lambda>x. path x = cur @ ''/'' @ seg) items = None
       then \<exists>y. items' = items @ [y] \<and> name y = seg \<and> path y = cur @ ''/'' @ seg
       else map name items' = map name items \<and> map path items' = map path items))
   \<and> (reconcile (files, steps) = Inr (files', steps') \<and>
       filter (\<lambda>s. status s = ''pending'') steps = ss1 @ ss2 \<longrightarrow>
        (\<exists>mid. processSteps ss1 files = Inr mid \<and> processSteps ss2 mid = Inr files' \<and>
               grows files mid \<and> grows mid files'))
   \<and> (distinct (map name cs) \<and> (\<forall>x \<in> set cs. \<not> is_array_index (name x)) \<longrightarrow>
        directory_keys (fst (processFile (FileItem n Folder p c0 (Some cs)) isRootFolder m)) = map name cs)
   \<and> reconcile ([], [\<lparr>step_type = CreateFile, step_path = Some ''a/b.txt'', code = c1, status = ''pending''\<rparr>,
                      \<lparr>step_type = CreateFile, step_path = Some ''a/c.txt'', code = c2, status = ''pending''\<rparr>,
                      \<lparr>step_type = CreateFile, step_path = Some ''a/b.txt'', code = c3, status = ''pending''\<rparr>])
       = Inr ([FileItem ''a'' Folder ''/a'' None (Some
                 [FileItem ''b.txt'' File ''/a/b.txt'' c3 None,
                  FileItem ''c.txt'' File ''/a/c.txt'' c2 None])],
              [\<lparr>step_type = CreateFile, step_path = Some ''a/b.txt'', code = c1, status = ''completed''\<rparr>,
               \<lparr>step_type = CreateFile, step_path = Some ''a/c.txt'', code = c2, status = ''completed''\<rparr>,
               \<lparr>step_type = CreateFile, step_path = Some ''a/b.txt'', code = c3, status = ''completed''\<rparr>])
   \<and> map (\<lambda>(k, d). (k, directory_keys d))
         (props (createMountStructure
            [FileItem ''a'' Folder ''/a'' None (Some
               [FileItem ''b.txt'' File ''/a/b.txt'' c3 None,
                FileItem ''c.txt'' File ''/a/c.txt'' c2 None])]))
       = [(''a'', [''b.txt'', ''c.txt''])]
   \<and> reconcile ([], [\<lparr>step_type = CreateFile, step_path = Some ''a/c.txt'', code = c1, status = ''pending''\<rparr>,
                      \<lparr>step_type = CreateFile, step_path = Some ''a/b.txt'', code = c2, status = ''pending''\<rparr>,
                      \<lparr>step_type = CreateFile, step_path = Some ''a/c.txt'', code = c3, status = ''pending''\<rparr>])
       = Inr ([FileItem ''a'' Folder ''/a'' None (Some
                 [FileItem ''c.txt'' File ''/a/c.txt'' c3 None,
                  FileItem ''b.txt'' File ''/a/b.txt'' c2 None])],
              [\<lparr>step_type = CreateFile, step_path = Some ''a/c.txt'', code = c1, status = ''completed''\<rparr>,
               \<lparr>step_type = CreateFile, step_path = Some ''a/b.txt'', code = c2, status = ''completed''\<rparr>,
               \<lparr>step_type = CreateFile, step_path = Some ''a/c.txt'', code = c3, status = ''completed''\<rparr>])
   \<and> map (\<lambda>(k, d). (k, directory_keys d))
         (props (createMountStructure
            [FileItem ''a'' Folder ''/a'' None (Some
               [FileItem ''c.txt'' File ''/a/c.txt'' c3 None,
                FileItem ''b.txt'' File ''/a/b.txt'' c2 None])]))
       = [(''a'', [''c.txt'', ''b.txt''])]"
proof -
  have i: "\<not> is_array_index ''b.txt''" "\<not> is_array_index ''c.txt''"
    by (simp_all add: not_array_index_hd is_digit_def)
  have "walk (seg # rest) cur c items = Inr items' \<longrightarrow>
      (if find (\<lambda>x. path x = cur @ ''/'' @ seg) items = None
       then \<exists>y. items' = items @ [y] \<and> name y = seg \<and> path y = cur @ ''/'' @ seg
       else map name items' = map name items \<and> map path items' = map path items)"
    using walk_appends[of seg rest cur c items items'] by blast
  moreover have "reconcile (files, steps) = Inr (files', steps') \<and>
       filter (\<lambda>s. status s = ''pending'') steps = ss1 @ ss2 \<longrightarrow>
        (\<exists>mid. processSteps ss1 files = Inr mid \<and> processSteps ss2 mid = Inr files' \<and>
               grows files mid \<and> grows mid files')"
    using pass_in_order[of files steps files' steps' ss1 ss2] by blast
  moreover have "distinct (map name cs) \<and> (\<forall>x \<in> set cs. \<not> is_array_index (name x)) \<longrightarrow>
        directory_keys (fst (processFile (FileItem n Folder p c0 (Some cs)) isRootFolder m)) = map name cs"
    using folder_keys[of cs n p c0 isRootFolder m] by blast
  moreover have "reconcile ([], [\<lparr>step_type = CreateFile, step_path = Some ''a/b.txt'', code = c1, status = ''pending''\<rparr>,
                      \<lparr>step_type = CreateFile, step_path = Some ''a/c.txt'', code = c2, status = ''pending''\<rparr>,
                      \<lparr>step_type = CreateFile, step_path = Some ''a/b.txt'', code = c3, status = ''pending''\<rparr>])
       = Inr ([FileItem ''a'' Folder ''/a'' None (Some
                 [FileItem ''b.txt'' File ''/a/b.txt'' c3 None,
                  FileItem ''c.txt'' File ''/a/c.txt'' c2 None])],
              [\<lparr>step_type = CreateFile, step_path = Some ''a/b.txt'', code = c1, status = ''completed''\<rparr>,
               \<lparr>step_type = CreateFile, step_path = Some ''a/c.txt'', code = c2, status = ''completed''\<rparr>,
               \<lparr>step_type = CreateFile, step_path = Some ''a/b.txt'', code = c3, status = ''completed''\<rparr>])"
    by (simp add: reconcile_def processStep_def walk.simps(2) set_children_def set_content_def)
  moreover have "map (\<lambda>(k, d). (k, directory_keys d))
         (props (createMountStructure
            [FileItem ''a'' Folder ''/a'' None (Some
               [FileItem ''b.txt'' File ''/a/b.txt'' c3 None,
                FileItem ''c.txt'' File ''/a/c.txt'' c2 None])]))
       = [(''a'', [''b.txt'', ''c.txt''])]"
    by (simp add: createMountStructure_def assign_def fromEntries_def Let_def
          directory_keys_def own_keys_def i)
  moreover have "reconcile ([], [\<lparr>step_type = CreateFile, step_path = Some ''a/c.txt'', code = c1, status = ''pending''\<rparr>,
                      \<lparr>step_type = CreateFile, step_path = Some ''a/b.txt'', code = c2, status = ''pending''\<rparr>,
                      \<lparr>step_type = CreateFile, step_path = Some ''a/c.txt'', code = c3, status = ''pending''\<rparr>])
       = Inr ([FileItem ''a'' Folder ''/a'' None (Some
                 [FileItem ''c.txt'' File ''/a/c.txt'' c3 None,
                  FileItem ''b.txt'' File ''/a/b.txt'' c2 None])],
              [\<lparr>step_type = CreateFile, step_path = Some ''a/c.txt'', code = c1, status = ''completed''\<rparr>,
               \<lparr>step_type = CreateFile, step_path = Some ''a/b.txt'', code = c2, status = ''completed''\<rparr>,
               \<lparr>step_type = CreateFile, step_path = Some ''a/c.txt'', code = c3, status = ''completed''\<rparr>])"
    by (simp add: reconcile_def processStep_def walk.simps(2) set_children_def set_content_def)
  moreover have "map (\<lambda>(k, d). (k, directory_keys d))
         (props (createMountStructure
            [FileItem ''a'' Folder ''/a'' None (Some
               [FileItem ''c.txt'' File ''/a/c.txt'' c3 None,
                FileItem ''b.txt'' File ''/a/b.txt'' c2 None])]))
       = [(''a'', [''c.txt'', ''b.txt''])]"
    by (simp add: createMountStructure_def assign_def fromEntries_def Let_def
          directory_keys_def own_keys_def i)
  ultimately show ?thesis by blast
qed

theorem first_seen_order_witness:
  "(\<exists>y. [FileItem ''z.txt'' File ''/a/z.txt'' None None,
          FileItem ''c.txt'' File ''/a/c.txt'' (Some ''1'') None]
        = [FileItem ''z.txt'' File ''/a/z.txt'' None None] @ [y]
        \<and> name y = ''c.txt'' \<and> path y = ''/a'' @ ''/'' @ ''c.txt'')
   \<and> (\<exists>mid. processSteps
               [\<lparr>step_type = CreateFile, step_path = Some ''a/c.txt'', code = Some ''1'', status = ''pending''\<rparr>]
               [FileItem ''a'' Folder ''/a'' None (Some [FileItem ''z.txt'' File ''/a/z.txt'' None None])]
             = Inr mid
           \<and> processSteps
               [\<lparr>step_type = CreateFile, step_path = Some ''a/b.txt'', code = Some ''2'', status = ''pending''\<rparr>]
               mid
             = Inr [FileItem ''a'' Folder ''/a'' None (Some
                      [FileItem ''z.txt'' File ''/a/z.txt'' None None,
                       FileItem ''c.txt'' File ''/a/c.txt'' (Some ''1'') None,
                       FileItem ''b.txt'' File ''/a/b.txt'' (Some ''2'') None])]
           \<and> grows [FileItem ''a'' Folder ''/a'' None (Some [FileItem ''z.txt'' File ''/a/z.txt'' None None])] mid
           \<and> grows mid [FileItem ''a'' Folder ''/a'' None (Some
                      [FileItem ''z.txt'' File ''/a/z.txt'' None None,
                       FileItem ''c.txt'' File ''/a/c.txt'' (Some ''1'') None,
                       FileItem ''b.txt'' File ''/a/b.txt'' (Some ''2'') None])])
   \<and> directory_keys (fst (processFile (FileItem ''a'' Folder ''/a'' None (Some
         [FileItem ''z.txt'' File ''/a/z.txt'' None None,
          FileItem ''c.txt'' File ''/a/c.txt'' (Some ''1'') None,
          FileItem ''b.txt'' File ''/a/b.txt'' (Some ''2'') None]))
         True \<lparr>props = [], proto = None\<rparr>)) = [''z.txt'', ''c.txt'', ''b.txt'']"
proof -
  let ?z = "FileItem ''z.txt'' File ''/a/z.txt'' None None"
  let ?c = "FileItem ''c.txt'' File ''/a/c.txt'' (Some ''1'') None"
  let ?b = "FileItem ''b.txt'' File ''/a/b.txt'' (Some ''2'') None"
  let ?s1 = "\<lparr>step_type = CreateFile, step_path = Some ''a/c.txt'', code = Some ''1'', status = ''pending''\<rparr>"
  let ?s2 = "\<lparr>step_type = CreateFile, step_path = Some ''a/b.txt'', code = Some ''2'', status = ''pending''\<rparr>"
  let ?files = "[FileItem ''a'' Folder ''/a'' None (Some [?z])]"
  let ?files' = "[FileItem ''a'' Folder ''/a'' None (Some [?z, ?c, ?b])]"
  let ?steps' = "[?s1\<lparr>status := ''completed''\<rparr>, ?s2\<lparr>status := ''completed''\<rparr>]"
  let ?cs = "[?z, ?c, ?b]"
  have w: "walk (''c.txt'' # []) ''/a'' (Some ''1'') [?z] = Inr [?z, ?c]"
    by (simp add: walk.simps(2))
  have f: "find (\<lambda>x. path x = ''/a'' @ ''/'' @ ''c.txt'') [?z] = None" by simp
  have r: "reconcile (?files, [?s1, ?s2]) = Inr (?files', ?steps')"
    by (simp add: reconcile_def processStep_def walk.simps(2) set_children_def)
  have p: "filter (\<lambda>s. status s = ''pending'') [?s1, ?s2] = [?s1] @ [?s2]" by simp
  have i: "\<not> is_array_index ''z.txt''" "\<not> is_array_index ''c.txt''" "\<not> is_array_index ''b.txt''"
    by (simp_all add: not_array_index_hd is_digit_def)
  have d: "distinct (map name ?cs) \<and> (\<forall>x \<in> set ?cs. \<not> is_array_index (name x))"
    using i by simp
  note t = first_seen_order
    [where seg = "''c.txt''" and rest = "[]" and cur = "''/a''" and c = "Some ''1''"
       and items = "[?z]" and items' = "[?z, ?c]"
       and files = ?files and steps = "[?s1, ?s2]" and files' = ?files' and steps' = ?steps'
       and ?ss1.0 = "[?s1]" and ?ss2.0 = "[?s2]"
       and cs = ?cs and n = "''a''" and p = "''/a''" and ?c0.0 = None and isRootFolder = True
       and m = "\<lparr>props = [], proto = None\<rparr>"]
  from t w f have a: "\<exists>y. [?z, ?c] = [?z] @ [y] \<and> name y = ''c.txt'' \<and> path y = ''/a'' @ ''/'' @ ''c.txt''"
    by presburger
  from t r p have b: "\<exists>mid. processSteps [?s1] ?files = Inr mid \<and> processSteps [?s2] mid = Inr ?files' \<and>
               grows ?files mid \<and> grows mid ?files'"
    by blast
  from t d have k: "directory_keys (fst (processFile (FileItem ''a'' Folder ''/a'' None (Some ?cs))
         True \<lparr>props = [], proto = None\<rparr>)) = map name ?cs"
    by blast
  from a b k show ?thesis by simp
qed

text \<open>
  C6, as the claim states it, fails: the projection does not keep the order of the
  children whatever their names. A child named by a decimal numeral is an array index of
  the directory object and is enumerated before the other keys: created after \<^verbatim>\<open>b\<close>, the
  file \<^verbatim>\<open>1\<close> comes first among the keys.
\<close>

theorem numeric_name_order:
  "reconcile ([], [\<lparr>step_type = CreateFile, step_path = Some ''a/b'', code = Some ''x'', status = ''pending''\<rparr>,
                   \<lparr>step_type = CreateFile, step_path = Some ''a/1'', code = Some ''y'', status = ''pending''\<rparr>])
     = Inr ([FileItem ''a'' Folder ''/a'' None (Some
               [FileItem ''b'' File ''/a/b'' (Some ''x'') None,
                FileItem ''1'' File ''/a/1'' (Some ''y'') None])],
            [\<lparr>step_type = CreateFile, step_path = Some ''a/b'', code = Some ''x'', status = ''completed''\<rparr>,
             \<lparr>step_type = CreateFile, step_path = Some ''a/1'', code = Some ''y'', status = ''completed''\<rparr>])
   \<and> directory_keys (fst (processFile
        (FileItem ''a'' Folder ''/a'' None (Some
               [FileItem ''b'' File ''/a/b'' (Some ''x'') None,
                FileItem ''1'' File ''/a/1'' (Some ''y'') None])) True \<lparr>props = [], proto = None\<rparr>))
     = [''1'', ''b'']"
proof -
  have i: "is_array_index ''1''" "\<not> is_array_index ''b''"
    by (simp_all add: is_array_index_def is_digit_def numeric_value_def)
  show ?thesis
    by (simp add: reconcile_def processStep_def walk.simps(2) set_children_def
          fromEntries_def Let_def directory_keys_def own_keys_def i)
qed

text \<open>
  C1. The claim is that only root-level names become keys of the root mapping. The folder
  branch of \<^verbatim>\<open>processFile\<close> assigns to \<^verbatim>\<open>mountStructure[file.name]\<close> at every depth: the
  nested folder \<^verbatim>\<open>components\<close> is a key of the root mapping next to \<^verbatim>\<open>src\<close>.
\<close>

theorem nested_folder_in_root_mapping:
  "own_keys (props (createMountStructure
     [FileItem ''src'' Folder ''/src'' None
        (Some [FileItem ''components'' Folder ''/src/components'' None (Some [])])]))
   = [''components'', ''src'']"
proof -
  have a: "\<not> is_array_index ''components''" "\<not> is_array_index ''src''"
    by (simp_all add: not_array_index_hd is_digit_def)
  show ?thesis
    by (simp add: createMountStructure_def assign_def fromEntries_def own_keys_def Let_def a)
qed

text \<open>
  The keys \<^verbatim>\<open>processFile\<close> adds to the mapping are the assigned names, \<^verbatim>\<open>__proto__\<close>
  apart.
\<close>

lemma assigned_exact:
  "fst ` set (props (snd (processFile f r m))) =
     fst ` set (props m) \<union> (set (assigned f r) - {''__proto__''})"
  "fst ` set (props (snd (processChildren cs m))) =
     fst ` set (props m) \<union> (set (assigned_children cs) - {''__proto__''})"
proof (induction f r m and cs m rule: processFile_processChildren.induct)
  case (1 n p c isRootFolder m)
  show ?case by (auto simp: assign_def Let_def dom_update)
next
  case (2 n p c cs isRootFolder m)
  obtain es m1 where pc: "processChildren cs m = (es, m1)" by (cases "processChildren cs m")
  with 2 show ?case by (auto simp: assign_def Let_def dom_update)
next
  case (3 n p c ch isRootFolder m)
  show ?case by (cases isRootFolder) (auto simp: assign_def Let_def dom_update)
next
  case (4 m)
  show ?case by simp
next
  case (5 child cs m)
  obtain d m1 where a: "processFile child False m = (d, m1)" by (cases "processFile child False m")
  obtain es m2 where b: "processChildren cs m1 = (es, m2)" by (cases "processChildren cs m1")
  from 5 a b show ?case by auto
qed

text \<open>
  C8, as the code has it. Degenerate nodes project to defaults, and the projection has no
  error result (no operation of \<^verbatim>\<open>processFile\<close> can raise on a \<^verbatim>\<open>FileItem\<close>): a file
  without content projects to a file descriptor with the empty string as contents, a
  folder without a \<^verbatim>\<open>children\<close> field to an empty directory descriptor, at any depth. At
  the root the node's name is bound to that descriptor in the mapping, provided the name
  is not \<^verbatim>\<open>__proto__\<close> and no node projected after it assigns the same key; inside a
  folder whose children have distinct names, the directory binds the node's name to it.
\<close>

theorem processFile_defaults:
  "fst (processFile (FileItem n File p None ch) isRootFolder m) = FileD []
   \<and> fst (processFile (FileItem n2 Folder p2 c2 None) isRootFolder m) = DirectoryD []
   \<and> (n \<noteq> ''__proto__'' \<and> n \<notin> set (assigned_roots post) \<longrightarrow>
        map_of (props (createMountStructure (pre @ FileItem n File p None ch # post))) n = Some (FileD []))
   \<and> (n2 \<noteq> ''__proto__'' \<and> n2 \<notin> set (assigned_roots post2) \<longrightarrow>
        map_of (props (createMountStructure (pre2 @ FileItem n2 Folder p2 c2 None # post2))) n2
          = Some (DirectoryD []))
   \<and> (distinct (map name cs) \<and> FileItem n File p None ch \<in> set cs \<longrightarrow>
        (\<exists>es. fst (processFile (FileItem n3 Folder p3 c3 (Some cs)) isRootFolder m) = DirectoryD es \<and>
              map_of es n = Some (FileD [])))
   \<and> (distinct (map name cs2) \<and> FileItem n2 Folder p2 c2 None \<in> set cs2 \<longrightarrow>
        (\<exists>es. fst (processFile (FileItem n3 Folder p3 c3 (Some cs2)) isRootFolder m) = DirectoryD es \<and>
              map_of es n2 = Some (DirectoryD [])))"
proof (intro conjI impI)
  show "fst (processFile (FileItem n File p None ch) isRootFolder m) = FileD []"
    by (simp add: Let_def)
  show "fst (processFile (FileItem n2 Folder p2 c2 None) isRootFolder m) = DirectoryD []"
    by (simp add: Let_def)
next
  assume "n \<noteq> ''__proto__'' \<and> n \<notin> set (assigned_roots post)"
  then show "map_of (props (createMountStructure (pre @ FileItem n File p None ch # post))) n = Some (FileD [])"
    by (intro root_binding[where ?m1.0 = "createMountStructure pre"]) (simp_all add: Let_def)
next
  assume "n2 \<noteq> ''__proto__'' \<and> n2 \<notin> set (assigned_roots post2)"
  then show "map_of (props (createMountStructure (pre2 @ FileItem n2 Folder p2 c2 None # post2))) n2
      = Some (DirectoryD [])"
    by (intro root_binding[where ?m1.0 = "createMountStructure pre2"]) (simp_all add: Let_def)
next
  assume "distinct (map name cs) \<and> FileItem n File p None ch \<in> set cs"
  then show "\<exists>es. fst (processFile (FileItem n3 Folder p3 c3 (Some cs)) isRootFolder m) = DirectoryD es \<and>
              map_of es n = Some (FileD [])"
    using directory_binding[of cs "FileItem n File p None ch" n3 p3 c3 isRootFolder m] by simp
next
  assume "distinct (map name cs2) \<and> FileItem n2 Folder p2 c2 None \<in> set cs2"
  then show "\<exists>es. fst (processFile (FileItem n3 Folder p3 c3 (Some cs2)) isRootFolder m) = DirectoryD es \<and>
              map_of es n2 = Some (DirectoryD [])"
    using directory_binding[of cs2 "FileItem n2 Folder p2 c2 None" n3 p3 c3 isRootFolder m] by simp
qed

theorem processFile_defaults_witness:
  "map_of (props (createMountStructure
     [FileItem ''src'' Folder ''/src'' None (Some [FileItem ''x'' Folder ''/src/x'' None (Some [])]),
      FileItem ''readme'' File ''/readme'' None None,
      FileItem ''lib'' Folder ''/lib'' None (Some [FileItem ''y'' File ''/lib/y'' None None])])) ''readme''
     = Some (FileD [])
   \<and> map_of (props (createMountStructure
     [FileItem ''readme'' File ''/readme'' None None,
      FileItem ''empty'' Folder ''/empty'' None None,
      FileItem ''lib'' Folder ''/lib'' None (Some [FileItem ''y'' File ''/lib/y'' None None])])) ''empty''
     = Some (DirectoryD [])
   \<and> (\<exists>es. fst (processFile (FileItem ''d'' Folder ''/d'' None (Some
                 [FileItem ''k'' File ''/d/k'' (Some ''v'') None,
                  FileItem ''readme'' File ''/readme'' None None,
                  FileItem ''empty'' Folder ''/empty'' None None])) False \<lparr>props = [], proto = None\<rparr>)
              = DirectoryD es
            \<and> map_of es ''readme'' = Some (FileD []) \<and> map_of es ''empty'' = Some (DirectoryD []))"
proof -
  let ?f = "FileItem ''readme'' File ''/readme'' None None"
  let ?e = "FileItem ''empty'' Folder ''/empty'' None None"
  let ?lib = "FileItem ''lib'' Folder ''/lib'' None (Some [FileItem ''y'' File ''/lib/y'' None None])"
  let ?src = "FileItem ''src'' Folder ''/src'' None (Some [FileItem ''x'' Folder ''/src/x'' None (Some [])])"
  let ?cs = "[FileItem ''k'' File ''/d/k'' (Some ''v'') None, ?f, ?e]"
  note t = processFile_defaults
    [where n = "''readme''" and p = "''/readme''" and ch = None and pre = "[?src]" and post = "[?lib]"
       and ?n2.0 = "''empty''" and ?p2.0 = "''/empty''" and ?c2.0 = None and ?pre2.0 = "[?f]" and ?post2.0 = "[?lib]"
       and cs = ?cs and ?cs2.0 = ?cs and ?n3.0 = "''d''" and ?p3.0 = "''/d''" and ?c3.0 = None
       and isRootFolder = False and m = "\<lparr>props = [], proto = None\<rparr>"]
  have h1: "''readme'' \<noteq> ''__proto__'' \<and> ''readme'' \<notin> set (assigned_roots [?lib])"
    by (simp add: assigned_roots_def)
  have h2: "''empty'' \<noteq> ''__proto__'' \<and> ''empty'' \<notin> set (assigned_roots [?lib])"
    by (simp add: assigned_roots_def)
  have h3: "distinct (map name ?cs) \<and> ?f \<in> set ?cs" by simp
  have h4: "distinct (map name ?cs) \<and> ?e \<in> set ?cs" by simp
  from t h1 have a: "map_of (props (createMountStructure ([?src] @ ?f # [?lib]))) ''readme'' = Some (FileD [])"
    by blast
  from t h2 have b: "map_of (props (createMountStructure ([?f] @ ?e # [?lib]))) ''empty'' = Some (DirectoryD [])"
    by blast
  from t h3 obtain es1 where
    c: "fst (processFile (FileItem ''d'' Folder ''/d'' None (Some ?cs)) False \<lparr>props = [], proto = None\<rparr>)
          = DirectoryD es1" "map_of es1 ''readme'' = Some (FileD [])"
    by blast
  from t h4 obtain es2 where
    d: "fst (processFile (FileItem ''d'' Folder ''/d'' None (Some ?cs)) False \<lparr>props = [], proto = None\<rparr>)
          = DirectoryD es2" "map_of es2 ''empty'' = Some (DirectoryD [])"
    by blast
  from c(1) d(1) have "es1 = es2" by simp
  with a b c d show ?thesis by simp
qed

text \<open>
  C8, as the claim states it, fails: not every root-level file without content is emitted
  as a file descriptor. For a root file named \<^verbatim>\<open>__proto__\<close> the assignment replaces the
  prototype of the mapping; the mapping has no key at all.
\<close>

theorem proto_root_file_not_a_key:
  "createMountStructure [FileItem ''__proto__'' File ''/__proto__'' None None]
     = \<lparr>props = [], proto = Some (FileD [])\<rparr>
   \<and> own_keys (props (createMountStructure [FileItem ''__proto__'' File ''/__proto__'' None None])) = []
   \<and> map_of (props (createMountStructure [FileItem ''__proto__'' File ''/__proto__'' None None])) ''__proto__''
     = None"
  by (simp add: createMountStructure_def assign_def own_keys_def Let_def)

end
